theory Spec2Isabelle
  imports Main "HOL-Library.AList" "HOL-Library.Multiset"
begin

section \<open>Data model of AsyncJson.ts\<close>

text \<open>
  Objects of the JavaScript heap are modelled by their identity: a \<open>Worker\<close> object,
  the \<open>resolve\<close>/\<open>reject\<close> pair of one \<open>Promise\<close> and a \<open>NodeJS.Timeout\<close> are
  natural numbers, allocated from counters held in the state.
\<close>

type_synonym Worker = nat
type_synonym Promise = nat
type_synonym Timeout = nat

datatype TaskType =
  Parse | Stringify | TEST_CRASH | TEST_ERROR | TEST_HANG | TEST_UNCAUGHT_ERROR

text \<open>
  \<open>payload: any\<close>. What matters to the class about a value is whether the
  structured clone algorithm of \<open>postMessage\<close> accepts it: \<open>Plain\<close> is a value it
  accepts (a string, \<open>null\<close>, an object or array of such), given by its JSON text;
  \<open>Func\<close> is one it refuses (a function, a symbol, or an object that holds one).
\<close>

datatype JSValue = Plain string | Func

fun cloneable :: "JSValue \<Rightarrow> bool" where
  "cloneable (Plain v) = True"
| "cloneable Func = False"

text \<open>The exception \<open>postMessage\<close> throws for a value it cannot clone.\<close>

datatype error = DataCloneError

record WorkerTask =
  type :: TaskType
  payload :: JSValue

text \<open>\<open>resolve\<close> and \<open>reject\<close> of a queue item belong to one promise: \<open>item_promise\<close>.\<close>

record TaskQueueItem =
  task :: WorkerTask
  item_promise :: Promise

text \<open>\<open>interface WorkerMessage { status: "ok" | "error"; data?; error? }\<close>\<close>

datatype WorkerMessage = Ok string | Error string

record WorkerTaskHandlers =
  promise :: Promise
  timeoutId :: "Timeout option"

text \<open>
  The reasons a promise is rejected with, one per \<open>new Error(...)\<close> of the class:
  the worker's own error message, the error of an \<open>error\<close> event, the exit code,
  "Worker task timed out" and "Worker pool is closing"; and \<open>Thrown\<close>, the exception
  with which the \<open>Promise\<close> constructor rejects when its executor throws.
\<close>

datatype Failure =
  ComputeFailure string | WorkerFault string | WorkerExited int | TaskTimedOut | PoolClosing
| Thrown error

datatype Settlement = Resolved string | Rejected Failure

text \<open>
  The fields of \<open>class AsyncJson\<close>, followed by the part of the runtime the class
  acts on: the allocation counters, the pending timers of \<open>setTimeout\<close> (each with the
  \<open>worker\<close> and the \<open>reject\<close> its callback closes over), the log of every call of a
  \<open>resolve\<close> or \<open>reject\<close>, the log of every \<open>postMessage\<close>, the workers
  \<open>terminate()\<close> was called on, and the workers whose \<open>exit\<close> event was emitted.
  \<open>workerTaskMap\<close> is a JavaScript \<open>Map\<close>, which keeps insertion order: an
  association list.
\<close>

record AsyncJson =
  numThreads :: nat
  taskTimeoutMs :: "nat option"
  workers :: "Worker list"
  idleWorkers :: "Worker list"
  taskQueue :: "TaskQueueItem list"
  workerTaskMap :: "(Worker \<times> WorkerTaskHandlers) list"
  isClosing :: bool
  timedOutWorkers :: "Worker set"
  erroredWorkers :: "Worker set"
  nextWorker :: nat
  nextPromise :: nat
  nextTimer :: nat
  timers :: "(Timeout \<times> Worker \<times> Promise) list"
  settled :: "(Promise \<times> Settlement) list"
  posted :: "(Worker \<times> WorkerTask) list"
  terminated :: "Worker set"
  exited :: "Worker set"

section \<open>Runtime primitives\<close>

definition clearTimeout :: "AsyncJson \<Rightarrow> Timeout \<Rightarrow> AsyncJson" where
  "clearTimeout s tid = s\<lparr>timers := AList.delete tid (timers s)\<rparr>"

text \<open>\<open>if (timeoutId) clearTimeout(timeoutId)\<close>\<close>

definition clearTimeoutOf :: "AsyncJson \<Rightarrow> WorkerTaskHandlers \<Rightarrow> AsyncJson" where
  "clearTimeoutOf s h = (case timeoutId h of None \<Rightarrow> s | Some tid \<Rightarrow> clearTimeout s tid)"

text \<open>A call of \<open>resolve\<close> or \<open>reject\<close> of promise \<open>p\<close>.\<close>

definition settle :: "AsyncJson \<Rightarrow> Promise \<Rightarrow> Settlement \<Rightarrow> AsyncJson" where
  "settle s p r = s\<lparr>settled := settled s @ [(p, r)]\<rparr>"

text \<open>\<open>worker.terminate()\<close>\<close>

definition terminate :: "AsyncJson \<Rightarrow> Worker \<Rightarrow> AsyncJson" where
  "terminate s worker = s\<lparr>terminated := insert worker (terminated s)\<rparr>"

text \<open>
  \<open>worker.postMessage(task)\<close> clones the task before it sends it, and throws when
  the payload cannot be cloned: then nothing is sent. A method that can throw returns
  the exception, if any, together with the state it leaves: the assignments made before
  the \<open>throw\<close> stay.
\<close>

definition postMessage ::
  "AsyncJson \<Rightarrow> Worker \<Rightarrow> WorkerTask \<Rightarrow> error option \<times> AsyncJson" where
  "postMessage s worker t =
     (if cloneable (payload t) then (None, s\<lparr>posted := posted s @ [(worker, t)]\<rparr>)
      else (Some DataCloneError, s))"

section \<open>The methods of the class\<close>

definition removeWorker :: "AsyncJson \<Rightarrow> Worker \<Rightarrow> AsyncJson" where
  "removeWorker s worker =
     s\<lparr>workers := filter (\<lambda>w. w \<noteq> worker) (workers s),
       idleWorkers := filter (\<lambda>w. w \<noteq> worker) (idleWorkers s)\<rparr>"

text \<open>
  \<open>dispatch\<close>: one guard, one assignment. The timer is created only when
  \<open>taskTimeoutMs !== undefined\<close>; its callback closes over \<open>worker\<close> and \<open>reject\<close>.
  \<open>postMessage\<close> is the last statement: what it throws, \<open>dispatch\<close> throws.
\<close>

definition dispatch :: "AsyncJson \<Rightarrow> error option \<times> AsyncJson" where
  "dispatch s =
     (if isClosing s \<or> taskQueue s = [] \<or> idleWorkers s = [] then (None, s)
      else
        let item = hd (taskQueue s);
            worker = hd (idleWorkers s);
            s1 = s\<lparr>taskQueue := tl (taskQueue s), idleWorkers := tl (idleWorkers s)\<rparr>;
            handlers = \<lparr>promise = item_promise item, timeoutId = None\<rparr>
        in if taskTimeoutMs s1 \<noteq> None
           then postMessage
                  (s1\<lparr>timers := timers s1 @ [(nextTimer s1, worker, item_promise item)],
                      nextTimer := Suc (nextTimer s1),
                      workerTaskMap :=
                        AList.update worker (handlers\<lparr>timeoutId := Some (nextTimer s1)\<rparr>)
                          (workerTaskMap s1)\<rparr>)
                  worker (task item)
           else postMessage
                  (s1\<lparr>workerTaskMap := AList.update worker handlers (workerTaskMap s1)\<rparr>)
                  worker (task item))"

text \<open>\<open>createWorker\<close> allocates the worker; its three handlers are below.\<close>

definition createWorker :: "AsyncJson \<Rightarrow> Worker \<times> AsyncJson" where
  "createWorker s = (nextWorker s, s\<lparr>nextWorker := Suc (nextWorker s)\<rparr>)"

definition spawnWorker :: "AsyncJson \<Rightarrow> error option \<times> AsyncJson" where
  "spawnWorker s =
     (if isClosing s then (None, s)
      else case createWorker s of (worker, s1) \<Rightarrow>
        dispatch (s1\<lparr>workers := workers s1 @ [worker],
                     idleWorkers := idleWorkers s1 @ [worker]\<rparr>))"

definition replaceWorker :: "AsyncJson \<Rightarrow> Worker \<Rightarrow> error option \<times> AsyncJson" where
  "replaceWorker s worker = spawnWorker (removeWorker s worker)"

text \<open>\<open>for (let i = 0; i < this.numThreads; i++) this.spawnWorker()\<close>, by the
  number of iterations left. An exception ends the loop.\<close>

primrec initWorkers_loop :: "nat \<Rightarrow> AsyncJson \<Rightarrow> error option \<times> AsyncJson" where
  "initWorkers_loop 0 s = (None, s)"
| "initWorkers_loop (Suc n) s =
     (case spawnWorker s of
        (None, s1) \<Rightarrow> initWorkers_loop n s1
      | (Some e, s1) \<Rightarrow> (Some e, s1))"

definition initWorkers :: "AsyncJson \<Rightarrow> error option \<times> AsyncJson" where
  "initWorkers s = initWorkers_loop (numThreads s) s"

text \<open>
  The field initialisers and the constructor. The queue is empty while the constructor
  runs, so that no \<open>dispatch\<close> sends anything and \<open>initWorkers\<close> cannot throw
  (\<open>initWorkers_returns\<close> below): the constructor returns the object.
\<close>

definition new_AsyncJson :: "nat \<Rightarrow> nat option \<Rightarrow> AsyncJson" where
  "new_AsyncJson n tmo =
     snd (initWorkers
       \<lparr>numThreads = n, taskTimeoutMs = tmo, workers = [], idleWorkers = [],
        taskQueue = [], workerTaskMap = [], isClosing = False,
        timedOutWorkers = {}, erroredWorkers = {},
        nextWorker = 0, nextPromise = 0, nextTimer = 0, timers = [],
        settled = [], posted = [], terminated = {}, exited = {}\<rparr>)"

text \<open>The handler of \<open>worker.on("message", ...)\<close>.\<close>

definition onMessage ::
  "AsyncJson \<Rightarrow> Worker \<Rightarrow> WorkerMessage \<Rightarrow> error option \<times> AsyncJson" where
  "onMessage s worker message =
     (case map_of (workerTaskMap s) worker of
        None \<Rightarrow> (None, s)
      | Some promiseHandlers \<Rightarrow>
          let s1 = clearTimeoutOf s promiseHandlers;
              s2 = (case message of
                      Ok data \<Rightarrow> settle s1 (promise promiseHandlers) (Resolved data)
                    | Error e \<Rightarrow>
                        settle s1 (promise promiseHandlers) (Rejected (ComputeFailure e)))
          in dispatch (s2\<lparr>workerTaskMap := AList.delete worker (workerTaskMap s2),
                          idleWorkers := idleWorkers s2 @ [worker]\<rparr>))"

text \<open>The handler of \<open>worker.on("error", ...)\<close>.\<close>

definition onError :: "AsyncJson \<Rightarrow> Worker \<Rightarrow> string \<Rightarrow> error option \<times> AsyncJson" where
  "onError s worker err =
     (let s1 = s\<lparr>erroredWorkers := insert worker (erroredWorkers s)\<rparr>
      in case map_of (workerTaskMap s1) worker of
           None \<Rightarrow> replaceWorker s1 worker
         | Some promiseHandlers \<Rightarrow>
             let s2 = settle (clearTimeoutOf s1 promiseHandlers)
                        (promise promiseHandlers) (Rejected (WorkerFault err))
             in replaceWorker
                  (s2\<lparr>workerTaskMap := AList.delete worker (workerTaskMap s2)\<rparr>) worker)"

text \<open>The handler of \<open>worker.on("exit", ...)\<close>.\<close>

definition onExit :: "AsyncJson \<Rightarrow> Worker \<Rightarrow> int \<Rightarrow> error option \<times> AsyncJson" where
  "onExit s worker code =
     (let timedOut = worker \<in> timedOutWorkers s;
          errored = worker \<in> erroredWorkers s;
          s1 = (if timedOut then s\<lparr>timedOutWorkers := timedOutWorkers s - {worker}\<rparr> else s);
          s2 = (if errored then s1\<lparr>erroredWorkers := erroredWorkers s1 - {worker}\<rparr> else s1);
          s3 = (if code \<noteq> 0 \<and> \<not> isClosing s2 \<and> \<not> timedOut \<and> \<not> errored
                then case map_of (workerTaskMap s2) worker of
                       None \<Rightarrow> s2
                     | Some promiseHandlers \<Rightarrow>
                         let s' = settle (clearTimeoutOf s2 promiseHandlers)
                                    (promise promiseHandlers) (Rejected (WorkerExited code))
                         in s'\<lparr>workerTaskMap := AList.delete worker (workerTaskMap s')\<rparr>
                else s2)
      in if code \<noteq> 0 \<and> \<not> timedOut \<and> \<not> errored
         then replaceWorker s3 worker
         else (None, removeWorker s3 worker))"

text \<open>
  The callback \<open>dispatch\<close> hands to \<open>setTimeout\<close>, with the \<open>worker\<close> and the
  \<open>reject\<close> it closes over. When \<open>replaceWorker\<close> throws, the \<open>dispatch\<close> after
  it is not reached.
\<close>

definition timeoutCallback ::
  "AsyncJson \<Rightarrow> Worker \<Rightarrow> Promise \<Rightarrow> error option \<times> AsyncJson" where
  "timeoutCallback s worker p =
     (if map_of (workerTaskMap s) worker = None then (None, s)
      else
        let s1 = s\<lparr>workerTaskMap := AList.delete worker (workerTaskMap s)\<rparr>;
            s2 = settle s1 p (Rejected TaskTimedOut);
            s3 = s2\<lparr>timedOutWorkers := insert worker (timedOutWorkers s2)\<rparr>;
            s4 = terminate s3 worker
        in case replaceWorker s4 worker of
             (None, s5) \<Rightarrow> dispatch s5
           | (Some e, s5) \<Rightarrow> (Some e, s5))"

text \<open>
  \<open>runTask\<close> returns the promise together with the state. \<open>Promise.reject(...)\<close>
  is a new promise, rejected at once. \<open>new Promise(executor)\<close> runs the executor
  at once, and when the executor throws, the constructor catches the exception and
  calls \<open>reject\<close> with it.
\<close>

definition runTask :: "AsyncJson \<Rightarrow> WorkerTask \<Rightarrow> Promise \<times> AsyncJson" where
  "runTask s t =
     (let p = nextPromise s; s0 = s\<lparr>nextPromise := Suc (nextPromise s)\<rparr>
      in if isClosing s0 then (p, settle s0 p (Rejected PoolClosing))
         else case dispatch
                     (s0\<lparr>taskQueue := taskQueue s0 @ [\<lparr>task = t, item_promise = p\<rparr>]\<rparr>) of
                (None, s1) \<Rightarrow> (p, s1)
              | (Some e, s1) \<Rightarrow> (p, settle s1 p (Rejected (Thrown e))))"

definition parse :: "AsyncJson \<Rightarrow> string \<Rightarrow> Promise \<times> AsyncJson" where
  "parse s jsonString = runTask s \<lparr>type = Parse, payload = Plain jsonString\<rparr>"

definition stringify :: "AsyncJson \<Rightarrow> JSValue \<Rightarrow> Promise \<times> AsyncJson" where
  "stringify s dataObject = runTask s \<lparr>type = Stringify, payload = dataObject\<rparr>"

text \<open>The \<open>while\<close> loop of \<open>close\<close> over the queue.\<close>

function rejectQueued :: "AsyncJson \<Rightarrow> AsyncJson" where
  "rejectQueued s =
     (if length (taskQueue s) > 0
      then rejectQueued
             (settle (s\<lparr>taskQueue := tl (taskQueue s)\<rparr>)
                (item_promise (hd (taskQueue s))) (Rejected PoolClosing))
      else s)"
  by pat_completeness auto
termination
  by (relation "measure (\<lambda>s. length (taskQueue s))") (auto simp: settle_def)

declare rejectQueued.simps [simp del]

text \<open>The \<open>for ... of this.workerTaskMap.entries()\<close> loop of \<open>close\<close>; each entry
  is deleted as it is visited.\<close>

primrec rejectInFlight ::
  "(Worker \<times> WorkerTaskHandlers) list \<Rightarrow> AsyncJson \<Rightarrow> AsyncJson" where
  "rejectInFlight [] s = s"
| "rejectInFlight (e # es) s =
     rejectInFlight es
       (let s1 = settle (clearTimeoutOf s (snd e)) (promise (snd e)) (Rejected PoolClosing)
        in s1\<lparr>workerTaskMap := AList.delete (fst e) (workerTaskMap s1)\<rparr>)"

text \<open>
  \<open>close\<close> up to its \<open>await\<close>. The promise it returns resolves when every worker
  it terminated has emitted \<open>exit\<close>: \<open>close_resolved\<close>.
\<close>

definition close :: "AsyncJson \<Rightarrow> AsyncJson" where
  "close s =
     (let s1 = rejectQueued (s\<lparr>isClosing := True\<rparr>);
          s2 = rejectInFlight (workerTaskMap s1) s1
      in foldl terminate s2 (workers s2))"

definition close_resolved :: "AsyncJson \<Rightarrow> AsyncJson \<Rightarrow> bool" where
  "close_resolved s s' \<longleftrightarrow> (\<forall>w \<in> set (workers s). w \<in> exited s')"

definition stats :: "AsyncJson \<Rightarrow> nat \<times> nat \<times> nat" where
  "stats s = (length (workers s), length (idleWorkers s), length (taskQueue s))"

section \<open>The event loop\<close>

text \<open>
  Everything the class does after construction happens in reaction to one event at a
  time: a call of \<open>parse\<close>, \<open>stringify\<close> or a test method, one of the three worker
  events, a timer that fires, or a call of \<open>close\<close>.
\<close>

datatype event =
  Submit WorkerTask
| Message Worker WorkerMessage
| Fault Worker string
| Exit Worker int
| TimeoutFired Timeout
| Close

text \<open>
  A timer fires only while pending (not cleared, not fired before) and is consumed by
  firing. The runtime records the \<open>exit\<close> of a worker. No handler catches
  anything: an exception that leaves a handler goes to the runtime as an uncaught
  exception, and the pool is left in the state the handler had reached.
\<close>

fun fire :: "AsyncJson \<Rightarrow> event \<Rightarrow> AsyncJson" where
  "fire s (Submit t) = snd (runTask s t)"
| "fire s (Message w m) = snd (onMessage s w m)"
| "fire s (Fault w err) = snd (onError s w err)"
| "fire s (Exit w code) = snd (onExit (s\<lparr>exited := insert w (exited s)\<rparr>) w code)"
| "fire s (TimeoutFired tid) =
     (case map_of (timers s) tid of
        None \<Rightarrow> s
      | Some (w, p) \<Rightarrow> snd (timeoutCallback (clearTimeout s tid) w p))"
| "fire s Close = close s"

text \<open>
  What \<open>worker_threads\<close> delivers: \<open>message\<close> and \<open>error\<close> events of workers
  that were created, in any order and number, also from a worker that was terminated
  or replaced before; one \<open>exit\<close> event for a worker, with any exit code, except
  that code 0 is reported only for a worker \<open>terminate()\<close> was called on (the worker
  code never ends by itself: it exits through \<open>process.exit(1)\<close>, an uncaught
  exception or \<open>terminate()\<close>).
\<close>

fun admissible :: "AsyncJson \<Rightarrow> event \<Rightarrow> bool" where
  "admissible s (Submit t) = True"
| "admissible s (Message w m) = (w < nextWorker s)"
| "admissible s (Fault w err) = (w < nextWorker s)"
| "admissible s (Exit w code) =
     (w < nextWorker s \<and> w \<notin> exited s \<and> (code = 0 \<longrightarrow> w \<in> terminated s))"
| "admissible s (TimeoutFired tid) = True"
| "admissible s Close = True"

inductive reachable :: "AsyncJson \<Rightarrow> bool" where
  init: "reachable (new_AsyncJson n tmo)"
| step: "reachable s \<Longrightarrow> admissible s e \<Longrightarrow> reachable (fire s e)"

section \<open>Invariants of the pool\<close>

text \<open>
  \<open>release\<close> is what the message, error and exit handlers share: cancel the timer
  of the assignment, settle its promise, delete the assignment. \<open>retired\<close> are the
  workers that exited or were attributed to a fault or a timeout. The invariants:
  \<^item> \<open>inv_registry\<close>: \<open>workers\<close>, \<open>idleWorkers\<close> and the keys of \<open>workerTaskMap\<close>
    have no duplicates; idle and assigned workers are registered and no worker is both;
    until \<open>close\<close> every registered worker is idle or assigned, afterwards no
    assignment is left; every created worker is registered or retired, never both;
  \<^item> \<open>inv_timers\<close>: every pending timer is the timer of the current assignment of
    its worker;
  \<^item> \<open>inv_closing\<close>: after \<open>close\<close> the queue is empty and every registered
    worker was terminated;
  \<^item> \<open>inv_terminated\<close>: until \<open>close\<close>, a worker that was terminated and has
    not exited is marked as timed out;
  \<^item> \<open>balanced\<close>: no task is queued while a worker is idle;
  \<^item> \<open>inv_promises\<close>: the promises created so far are those of the queue, of the
    assignments and of the settlement log, each once. It is not part of \<open>pool_inv\<close>:
    it holds as long as no \<open>postMessage\<close> has thrown.
\<close>

definition release :: "AsyncJson \<Rightarrow> Worker \<Rightarrow> WorkerTaskHandlers \<Rightarrow> Settlement \<Rightarrow> AsyncJson" where
  "release s w h r =
     (settle (clearTimeoutOf s h) (promise h) r)
       \<lparr>workerTaskMap := AList.delete w (workerTaskMap s)\<rparr>"

fun outcome :: "WorkerMessage \<Rightarrow> Settlement" where
  "outcome (Ok d) = Resolved d"
| "outcome (Error e) = Rejected (ComputeFailure e)"

definition retired :: "AsyncJson \<Rightarrow> Worker set" where
  "retired s = exited s \<union> erroredWorkers s \<union> timedOutWorkers s"

definition inv_registry :: "AsyncJson \<Rightarrow> bool" where
  "inv_registry s \<longleftrightarrow>
     distinct (workers s) \<and> distinct (idleWorkers s) \<and>
     distinct (map fst (workerTaskMap s)) \<and>
     set (idleWorkers s) \<subseteq> set (workers s) \<and>
     fst ` set (workerTaskMap s) \<subseteq> set (workers s) \<and>
     fst ` set (workerTaskMap s) \<inter> set (idleWorkers s) = {} \<and>
     (\<not> isClosing s \<longrightarrow>
        set (workers s) \<subseteq> set (idleWorkers s) \<union> fst ` set (workerTaskMap s)) \<and>
     (isClosing s \<longrightarrow> workerTaskMap s = []) \<and>
     set (workers s) \<union> retired s = {..<nextWorker s} \<and>
     set (workers s) \<inter> retired s = {}"

definition inv_timers :: "AsyncJson \<Rightarrow> bool" where
  "inv_timers s \<longleftrightarrow>
     (\<forall>tid w p. (tid, w, p) \<in> set (timers s) \<longrightarrow>
        tid < nextTimer s \<and>
        map_of (workerTaskMap s) w = Some \<lparr>promise = p, timeoutId = Some tid\<rparr>)"

definition pending :: "AsyncJson \<Rightarrow> Promise list" where
  "pending s = map item_promise (taskQueue s) @ map (promise \<circ> snd) (workerTaskMap s)"

definition settledIds :: "AsyncJson \<Rightarrow> Promise list" where
  "settledIds s = map fst (settled s)"

definition inv_promises :: "AsyncJson \<Rightarrow> bool" where
  "inv_promises s \<longleftrightarrow>
     distinct (pending s @ settledIds s) \<and>
     set (pending s @ settledIds s) = {..<nextPromise s}"

definition inv_closing :: "AsyncJson \<Rightarrow> bool" where
  "inv_closing s \<longleftrightarrow>
     (isClosing s \<longrightarrow> taskQueue s = [] \<and> set (workers s) \<subseteq> terminated s)"

definition inv_terminated :: "AsyncJson \<Rightarrow> bool" where
  "inv_terminated s \<longleftrightarrow>
     (\<forall>w \<in> terminated s. w \<in> exited s \<or> w \<in> timedOutWorkers s \<or> isClosing s)"

definition balanced :: "AsyncJson \<Rightarrow> bool" where
  "balanced s \<longleftrightarrow> taskQueue s = [] \<or> idleWorkers s = []"

definition inv_core :: "AsyncJson \<Rightarrow> bool" where
  "inv_core s \<longleftrightarrow> inv_registry s \<and> inv_timers s \<and> inv_closing s \<and> inv_terminated s"

definition pool_inv :: "AsyncJson \<Rightarrow> bool" where
  "pool_inv s \<longleftrightarrow> inv_core s \<and> balanced s"

section \<open>The dispatch loop of the specification, runs, and concrete pools\<close>

text \<open>
  The dispatch algorithm in the words of the specification: while the queue is
  non-empty and an idle unit exists, pop the front task, pop an idle unit, create the
  assignment, start the deadline timer if a timeout is configured, and send the task
  to the unit; a no-op under closing.
\<close>

definition assign_front :: "AsyncJson \<Rightarrow> AsyncJson" where
  "assign_front s =
     (case (taskQueue s, idleWorkers s) of
        (item # q, w # ws) \<Rightarrow>
          s\<lparr>taskQueue := q, idleWorkers := ws,
            timers := (if taskTimeoutMs s = None then timers s
                       else timers s @ [(nextTimer s, w, item_promise item)]),
            nextTimer := (if taskTimeoutMs s = None then nextTimer s else Suc (nextTimer s)),
            workerTaskMap := AList.update w
               \<lparr>promise = item_promise item,
                timeoutId = (if taskTimeoutMs s = None then None else Some (nextTimer s))\<rparr>
               (workerTaskMap s),
            posted := posted s @ [(w, task item)]\<rparr>
      | _ \<Rightarrow> s)"

function dispatch_spec :: "AsyncJson \<Rightarrow> AsyncJson" where
  "dispatch_spec s =
     (if isClosing s \<or> taskQueue s = [] \<or> idleWorkers s = [] then s
      else dispatch_spec (assign_front s))"
  by pat_completeness auto
termination
  by (relation "measure (\<lambda>s. length (taskQueue s))")
     (auto simp: assign_front_def split: list.splits)

declare dispatch_spec.simps [simp del]

text \<open>At most one queued task, or at most one idle worker: what holds wherever the
  class calls \<open>dispatch\<close>.\<close>

definition nearly_balanced :: "AsyncJson \<Rightarrow> bool" where
  "nearly_balanced s \<longleftrightarrow> length (taskQueue s) \<le> 1 \<or> length (idleWorkers s) \<le> 1"

text \<open>Runs of the event loop: \<open>reaches s s'\<close> when admissible events lead from
  \<open>s\<close> to \<open>s'\<close>.\<close>

inductive reaches :: "AsyncJson \<Rightarrow> AsyncJson \<Rightarrow> bool" where
  here: "reaches s s"
| later: "reaches s s' \<Longrightarrow> admissible s' e \<Longrightarrow> reaches s (fire s' e)"

text \<open>Runs in which every payload submitted can be cloned.\<close>

fun cloneable_event :: "event \<Rightarrow> bool" where
  "cloneable_event (Submit t) = cloneable (payload t)"
| "cloneable_event (Message w m) = True"
| "cloneable_event (Fault w err) = True"
| "cloneable_event (Exit w code) = True"
| "cloneable_event (TimeoutFired tid) = True"
| "cloneable_event Close = True"

inductive reaches_cloneable :: "AsyncJson \<Rightarrow> AsyncJson \<Rightarrow> bool" where
  here: "reaches_cloneable s s"
| later: "reaches_cloneable s s' \<Longrightarrow> admissible s' e \<Longrightarrow> cloneable_event e \<Longrightarrow>
          reaches_cloneable s (fire s' e)"

subsection \<open>Concrete pools\<close>

definition hang_task :: WorkerTask where
  "hang_task = \<lparr>type = TEST_HANG, payload = Plain ''null''\<rparr>"

definition parse_task :: WorkerTask where
  "parse_task = \<lparr>type = Parse, payload = Plain ''{}''\<rparr>"

text \<open>The task of \<open>stringify(() => 1)\<close>: a payload that cannot be cloned.\<close>

definition fn_task :: WorkerTask where
  "fn_task = \<lparr>type = Stringify, payload = Func\<rparr>"

text \<open>One worker, timeout 50 ms; then the worker busy with a task that never answers;
  then the timeout fired; and the busy pool after \<open>close()\<close> was called, before and
  after its worker exits.\<close>

definition pool1 :: AsyncJson where
  "pool1 = new_AsyncJson 1 (Some 50)"

definition busy1 :: AsyncJson where
  "busy1 = fire pool1 (Submit hang_task)"

definition timedout1 :: AsyncJson where
  "timedout1 = fire busy1 (TimeoutFired 0)"

definition closing1 :: AsyncJson where
  "closing1 = fire busy1 Close"

definition closed1 :: AsyncJson where
  "closed1 = fire closing1 (Exit 0 1)"

definition queued1 :: AsyncJson where
  "queued1 = fire busy1 (Submit parse_task)"

text \<open>The state in which \<open>runTask\<close> calls \<open>dispatch\<close> on the fresh pool.\<close>

definition enqueued1 :: AsyncJson where
  "enqueued1 =
     pool1\<lparr>nextPromise := Suc (nextPromise pool1),
           taskQueue := taskQueue pool1 @ [\<lparr>task = hang_task, item_promise = nextPromise pool1\<rparr>]\<rparr>"

text \<open>Two idle workers and two queued tasks: a state the class never calls
  \<open>dispatch\<close> in.\<close>

definition crowded2 :: AsyncJson where
  "crowded2 =
     (new_AsyncJson 2 None)
       \<lparr>taskQueue := [\<lparr>task = parse_task, item_promise = 0\<rparr>,
                     \<lparr>task = parse_task, item_promise = 1\<rparr>],
        nextPromise := 2\<rparr>"

text \<open>The timed-out worker 0 of \<open>timedout1\<close> raises \<open>error\<close> before it exits.\<close>

definition overfull1 :: AsyncJson where
  "overfull1 = fire timedout1 (Fault 0 ''boom'')"

text \<open>
  \<open>stringify(() => 1)\<close> on the fresh pool: the state in which \<open>runTask\<close> calls
  \<open>dispatch\<close>, and the state after the call of \<open>stringify\<close>; then the timer of the
  assignment fires, or \<open>close()\<close> is called.
\<close>

definition enqueued_fn1 :: AsyncJson where
  "enqueued_fn1 =
     pool1\<lparr>nextPromise := Suc (nextPromise pool1),
           taskQueue := taskQueue pool1 @ [\<lparr>task = fn_task, item_promise = nextPromise pool1\<rparr>]\<rparr>"




text \<open>The same call on a pool of one worker without timeout, and a \<open>parse\<close> after
  it.\<close>

definition wedged_forever1 :: AsyncJson where
  "wedged_forever1 = snd (parse (snd (stringify (new_AsyncJson 1 None) Func)) ''{}'')"

definition drained1 :: AsyncJson where
  "drained1 = fire (close queued1) (Exit 0 1)"

definition faulted_closing1 :: AsyncJson where
  "faulted_closing1 = fire (fire closing1 (Fault 0 ''boom'')) (Exit 0 1)"

section \<open>Supporting lemmas\<close>

subsection \<open>Lists and association lists\<close>

lemma update_fresh: "k \<notin> fst ` set al \<Longrightarrow> AList.update k v al = al @ [(k, v)]"
  by (induction al) auto

lemma map_of_keys: "map_of al k = Some v \<Longrightarrow> k \<in> fst ` set al"
  by (metis domI dom_map_of_conv_image_fst)

lemma map_of_None_keys: "map_of al k = None \<longleftrightarrow> k \<notin> fst ` set al"
  by (simp add: map_of_eq_None_iff)

lemma keys_delete: "fst ` set (AList.delete k al) = fst ` set al - {k}"
  by (induction al) auto

lemma delete_filter: "AList.delete k al = filter (\<lambda>e. fst e \<noteq> k) al"
  by (induction al) auto

lemma set_delete: "set (AList.delete k al) = {e \<in> set al. fst e \<noteq> k}"
  by (simp add: delete_filter)

lemma map_of_delete_eq: "map_of (AList.delete k al) k' = (if k' = k then None else map_of al k')"
  by (simp add: AList.delete_conv')

lemma filter_absent: "x \<notin> set xs \<Longrightarrow> filter (\<lambda>y. y \<noteq> x) xs = xs"
  by (induction xs) auto

lemma length_filter_remove:
  "distinct xs \<Longrightarrow> x \<in> set xs \<Longrightarrow> Suc (length (filter (\<lambda>y. y \<noteq> x) xs)) = length xs"
  by (induction xs) (auto simp: filter_absent)

lemma delete_entry_values:
  assumes "distinct (map fst al)" "map_of al k = Some v"
  shows "mset (map f (AList.delete k al)) + {#f (k, v)#} = mset (map f al)"
  using assms
proof (induction al)
  case Nil
  then show ?case by simp
next
  case (Cons e al)
  show ?case
  proof (cases "fst e = k")
    case True
    with Cons.prems have "e = (k, v)" by (cases e) auto
    moreover from True Cons.prems have "k \<notin> fst ` set al" by auto
    ultimately show ?thesis by simp
  next
    case False
    with Cons show ?thesis by auto
  qed
qed

subsection \<open>The handlers in closed form\<close>

named_theorems prim

lemmas [prim] = clearTimeout_def clearTimeoutOf_def settle_def terminate_def postMessage_def
  removeWorker_def createWorker_def

lemma dispatch_noop:
  "isClosing s \<or> taskQueue s = [] \<or> idleWorkers s = [] \<Longrightarrow> dispatch s = (None, s)"
  by (simp add: dispatch_def)

text \<open>The state \<open>dispatch\<close> leaves when it assigns, whether or not the send throws,
  up to the log of messages.\<close>

lemma dispatch_assign:
  assumes "\<not> isClosing s" "taskQueue s = item # q" "idleWorkers s = w # ws"
  shows "snd (dispatch s) =
     s\<lparr>taskQueue := q, idleWorkers := ws,
       timers := (if taskTimeoutMs s = None then timers s
                  else timers s @ [(nextTimer s, w, item_promise item)]),
       nextTimer := (if taskTimeoutMs s = None then nextTimer s else Suc (nextTimer s)),
       workerTaskMap := AList.update w
          \<lparr>promise = item_promise item,
           timeoutId = (if taskTimeoutMs s = None then None else Some (nextTimer s))\<rparr>
          (workerTaskMap s),
       posted := (if cloneable (payload (task item)) then posted s @ [(w, task item)]
                  else posted s)\<rparr>"
    and "fst (dispatch s) =
     (if cloneable (payload (task item)) then None else Some DataCloneError)"
  using assms by (simp_all add: dispatch_def Let_def prim)

lemma dispatch_cases [case_names noop assign]:
  obtains (noop) "isClosing s \<or> taskQueue s = [] \<or> idleWorkers s = []"
      "dispatch s = (None, s)"
  | (assign) item q w ws where "\<not> isClosing s" "taskQueue s = item # q"
      "idleWorkers s = w # ws"
      "snd (dispatch s) =
        s\<lparr>taskQueue := q, idleWorkers := ws,
          timers := (if taskTimeoutMs s = None then timers s
                     else timers s @ [(nextTimer s, w, item_promise item)]),
          nextTimer := (if taskTimeoutMs s = None then nextTimer s else Suc (nextTimer s)),
          workerTaskMap := AList.update w
             \<lparr>promise = item_promise item,
              timeoutId = (if taskTimeoutMs s = None then None else Some (nextTimer s))\<rparr>
             (workerTaskMap s),
          posted := (if cloneable (payload (task item)) then posted s @ [(w, task item)]
                     else posted s)\<rparr>"
      "fst (dispatch s) =
        (if cloneable (payload (task item)) then None else Some DataCloneError)"
proof (cases "isClosing s \<or> taskQueue s = [] \<or> idleWorkers s = []")
  case True
  then show ?thesis using noop by (simp add: dispatch_noop)
next
  case False
  then obtain item q w ws where
    *: "\<not> isClosing s" "taskQueue s = item # q" "idleWorkers s = w # ws"
    by (cases "taskQueue s"; cases "idleWorkers s") auto
  show ?thesis using assign[OF * dispatch_assign[OF *]] .
qed

text \<open>What \<open>dispatch\<close> never touches.\<close>

lemma dispatch_frame:
  "workers (snd (dispatch s)) = workers s"
  "isClosing (snd (dispatch s)) = isClosing s"
  "numThreads (snd (dispatch s)) = numThreads s"
  "taskTimeoutMs (snd (dispatch s)) = taskTimeoutMs s"
  "nextWorker (snd (dispatch s)) = nextWorker s"
  "nextPromise (snd (dispatch s)) = nextPromise s"
  "settled (snd (dispatch s)) = settled s"
  "terminated (snd (dispatch s)) = terminated s"
  "exited (snd (dispatch s)) = exited s"
  "erroredWorkers (snd (dispatch s)) = erroredWorkers s"
  "timedOutWorkers (snd (dispatch s)) = timedOutWorkers s"
  by (cases s rule: dispatch_cases; simp)+

text \<open>\<open>dispatch\<close> throws only when it assigns a task whose payload cannot be cloned.\<close>

lemma dispatch_throws:
  "fst (dispatch s) = Some e \<Longrightarrow>
   \<not> isClosing s \<and> taskQueue s \<noteq> [] \<and> idleWorkers s \<noteq> []
   \<and> \<not> cloneable (payload (task (hd (taskQueue s)))) \<and> e = DataCloneError"
  by (cases s rule: dispatch_cases) (auto split: if_splits)

lemma spawnWorker_closing: "isClosing s \<Longrightarrow> spawnWorker s = (None, s)"
  by (simp add: spawnWorker_def)

lemma spawnWorker_open:
  "\<not> isClosing s \<Longrightarrow>
   spawnWorker s =
     dispatch (s\<lparr>nextWorker := Suc (nextWorker s),
                 workers := workers s @ [nextWorker s],
                 idleWorkers := idleWorkers s @ [nextWorker s]\<rparr>)"
  by (simp add: spawnWorker_def createWorker_def)

lemma spawnWorker_frame:
  "workers (snd (spawnWorker s)) =
     (if isClosing s then workers s else workers s @ [nextWorker s])"
  "nextWorker (snd (spawnWorker s)) =
     (if isClosing s then nextWorker s else Suc (nextWorker s))"
  "isClosing (snd (spawnWorker s)) = isClosing s"
  "numThreads (snd (spawnWorker s)) = numThreads s"
  "taskTimeoutMs (snd (spawnWorker s)) = taskTimeoutMs s"
  "nextPromise (snd (spawnWorker s)) = nextPromise s"
  "settled (snd (spawnWorker s)) = settled s"
  "terminated (snd (spawnWorker s)) = terminated s"
  "exited (snd (spawnWorker s)) = exited s"
  "erroredWorkers (snd (spawnWorker s)) = erroredWorkers s"
  "timedOutWorkers (snd (spawnWorker s)) = timedOutWorkers s"
  by (cases "isClosing s"; simp add: spawnWorker_closing spawnWorker_open dispatch_frame)+

lemma release_fields:
  "workers (release s w h r) = workers s"
  "idleWorkers (release s w h r) = idleWorkers s"
  "taskQueue (release s w h r) = taskQueue s"
  "workerTaskMap (release s w h r) = AList.delete w (workerTaskMap s)"
  "isClosing (release s w h r) = isClosing s"
  "numThreads (release s w h r) = numThreads s"
  "taskTimeoutMs (release s w h r) = taskTimeoutMs s"
  "nextWorker (release s w h r) = nextWorker s"
  "nextPromise (release s w h r) = nextPromise s"
  "nextTimer (release s w h r) = nextTimer s"
  "timers (release s w h r) =
     (case timeoutId h of None \<Rightarrow> timers s | Some tid \<Rightarrow> AList.delete tid (timers s))"
  "settled (release s w h r) = settled s @ [(promise h, r)]"
  "posted (release s w h r) = posted s"
  "terminated (release s w h r) = terminated s"
  "exited (release s w h r) = exited s"
  "erroredWorkers (release s w h r) = erroredWorkers s"
  "timedOutWorkers (release s w h r) = timedOutWorkers s"
  by (simp_all add: release_def prim split: option.splits)

lemma onMessage_None: "map_of (workerTaskMap s) w = None \<Longrightarrow> onMessage s w m = (None, s)"
  by (simp add: onMessage_def)

lemma onMessage_Some:
  "map_of (workerTaskMap s) w = Some h \<Longrightarrow>
   onMessage s w m =
     dispatch ((release s w h (outcome m))\<lparr>idleWorkers := idleWorkers s @ [w]\<rparr>)"
  by (cases m) (simp_all add: onMessage_def Let_def release_def prim split: option.splits)

lemma onError_None:
  "map_of (workerTaskMap s) w = None \<Longrightarrow>
   onError s w err =
     spawnWorker (removeWorker (s\<lparr>erroredWorkers := insert w (erroredWorkers s)\<rparr>) w)"
  by (simp add: onError_def Let_def replaceWorker_def)

lemma onError_Some:
  "map_of (workerTaskMap s) w = Some h \<Longrightarrow>
   onError s w err =
     spawnWorker (removeWorker
       (release (s\<lparr>erroredWorkers := insert w (erroredWorkers s)\<rparr>) w h
          (Rejected (WorkerFault err))) w)"
  by (simp add: onError_def Let_def replaceWorker_def release_def prim split: option.splits)

lemma onExit_attributed:
  "w \<in> timedOutWorkers s \<or> w \<in> erroredWorkers s \<Longrightarrow>
   onExit s w code =
     (None, removeWorker (s\<lparr>timedOutWorkers := timedOutWorkers s - {w},
                     erroredWorkers := erroredWorkers s - {w}\<rparr>) w)"
  by (cases "w \<in> timedOutWorkers s"; cases "w \<in> erroredWorkers s")
     (simp_all add: onExit_def Let_def removeWorker_def)

lemma onExit_zero:
  "onExit s w 0 =
     (None, removeWorker (s\<lparr>timedOutWorkers := timedOutWorkers s - {w},
                     erroredWorkers := erroredWorkers s - {w}\<rparr>) w)"
  by (cases "w \<in> timedOutWorkers s"; cases "w \<in> erroredWorkers s")
     (simp_all add: onExit_def Let_def removeWorker_def)

lemma onExit_plain:
  assumes "w \<notin> timedOutWorkers s" "w \<notin> erroredWorkers s" "code \<noteq> 0"
    and "isClosing s \<or> map_of (workerTaskMap s) w = None"
  shows "onExit s w code = spawnWorker (removeWorker s w)"
  using assms by (auto simp: onExit_def Let_def replaceWorker_def)

lemma onExit_busy:
  assumes "w \<notin> timedOutWorkers s" "w \<notin> erroredWorkers s" "code \<noteq> 0"
    and "\<not> isClosing s" "map_of (workerTaskMap s) w = Some h"
  shows "onExit s w code =
     spawnWorker (removeWorker (release s w h (Rejected (WorkerExited code))) w)"
  using assms by (simp add: onExit_def Let_def replaceWorker_def release_def prim
      split: option.splits)

lemma timeoutCallback_None:
  "map_of (workerTaskMap s) w = None \<Longrightarrow> timeoutCallback s w p = (None, s)"
  by (simp add: timeoutCallback_def)

lemma timeoutCallback_Some:
  "map_of (workerTaskMap s) w = Some h \<Longrightarrow>
   timeoutCallback s w p =
     (case spawnWorker (removeWorker
             (s\<lparr>workerTaskMap := AList.delete w (workerTaskMap s),
                settled := settled s @ [(p, Rejected TaskTimedOut)],
                timedOutWorkers := insert w (timedOutWorkers s),
                terminated := insert w (terminated s)\<rparr>) w) of
        (None, s5) \<Rightarrow> dispatch s5
      | (Some e, s5) \<Rightarrow> (Some e, s5))"
  by (simp add: timeoutCallback_def Let_def replaceWorker_def prim)

text \<open>In either case the state is that of the replacement, with \<open>dispatch\<close> run on
  it or not.\<close>

lemma timeoutCallback_state:
  assumes "map_of (workerTaskMap s) w = Some h"
  shows "snd (timeoutCallback s w p) =
           snd (dispatch (snd (spawnWorker (removeWorker
             (s\<lparr>workerTaskMap := AList.delete w (workerTaskMap s),
                settled := settled s @ [(p, Rejected TaskTimedOut)],
                timedOutWorkers := insert w (timedOutWorkers s),
                terminated := insert w (terminated s)\<rparr>) w))))
       \<or> snd (timeoutCallback s w p) =
           snd (spawnWorker (removeWorker
             (s\<lparr>workerTaskMap := AList.delete w (workerTaskMap s),
                settled := settled s @ [(p, Rejected TaskTimedOut)],
                timedOutWorkers := insert w (timedOutWorkers s),
                terminated := insert w (terminated s)\<rparr>) w))"
  unfolding timeoutCallback_Some[OF assms]
  by (auto split: prod.splits option.splits)

lemma timeoutCallback_frame:
  assumes "map_of (workerTaskMap s) w = Some h"
  shows "workers (snd (timeoutCallback s w p)) =
           (if isClosing s then filter (\<lambda>y. y \<noteq> w) (workers s)
            else filter (\<lambda>y. y \<noteq> w) (workers s) @ [nextWorker s])"
    "nextWorker (snd (timeoutCallback s w p)) =
           (if isClosing s then nextWorker s else Suc (nextWorker s))"
    "isClosing (snd (timeoutCallback s w p)) = isClosing s"
    "numThreads (snd (timeoutCallback s w p)) = numThreads s"
    "taskTimeoutMs (snd (timeoutCallback s w p)) = taskTimeoutMs s"
    "nextPromise (snd (timeoutCallback s w p)) = nextPromise s"
    "settled (snd (timeoutCallback s w p)) = settled s @ [(p, Rejected TaskTimedOut)]"
    "terminated (snd (timeoutCallback s w p)) = insert w (terminated s)"
    "exited (snd (timeoutCallback s w p)) = exited s"
    "erroredWorkers (snd (timeoutCallback s w p)) = erroredWorkers s"
    "timedOutWorkers (snd (timeoutCallback s w p)) = insert w (timedOutWorkers s)"
  using timeoutCallback_state[OF assms, of p]
  by (auto simp: dispatch_frame spawnWorker_frame prim)

lemma runTask_closing:
  "isClosing s \<Longrightarrow>
   runTask s t = (nextPromise s,
     s\<lparr>nextPromise := Suc (nextPromise s),
       settled := settled s @ [(nextPromise s, Rejected PoolClosing)]\<rparr>)"
  by (simp add: runTask_def Let_def settle_def)

lemma runTask_open:
  "\<not> isClosing s \<Longrightarrow>
   runTask s t =
     (case dispatch (s\<lparr>nextPromise := Suc (nextPromise s),
             taskQueue := taskQueue s @ [\<lparr>task = t, item_promise = nextPromise s\<rparr>]\<rparr>) of
        (None, s1) \<Rightarrow> (nextPromise s, s1)
      | (Some e, s1) \<Rightarrow>
          (nextPromise s, s1\<lparr>settled := settled s1 @ [(nextPromise s, Rejected (Thrown e))]\<rparr>))"
  by (simp add: runTask_def Let_def settle_def split: prod.splits option.splits)

text \<open>The state after \<open>runTask\<close>: that of \<open>dispatch\<close>, and the rejection by the
  \<open>Promise\<close> constructor when \<open>dispatch\<close> threw.\<close>

lemma runTask_state:
  assumes "\<not> isClosing s"
  shows "snd (runTask s t) =
     (let d = dispatch (s\<lparr>nextPromise := Suc (nextPromise s),
             taskQueue := taskQueue s @ [\<lparr>task = t, item_promise = nextPromise s\<rparr>]\<rparr>)
      in case fst d of
           None \<Rightarrow> snd d
         | Some e \<Rightarrow> (snd d)\<lparr>settled := settled (snd d) @ [(nextPromise s, Rejected (Thrown e))]\<rparr>)"
  unfolding runTask_open[OF assms]
  by (simp add: Let_def split: prod.splits option.splits)

lemma rejectQueued_eq:
  "rejectQueued s =
     s\<lparr>taskQueue := [],
       settled := settled s @ map (\<lambda>i. (item_promise i, Rejected PoolClosing)) (taskQueue s)\<rparr>"
proof (induction s rule: rejectQueued.induct)
  case (1 s)
  show ?case
  proof (cases "taskQueue s")
    case Nil
    then show ?thesis by (subst rejectQueued.simps) simp
  next
    case (Cons i q)
    then show ?thesis
      using "1.IH" by (subst rejectQueued.simps) (simp add: settle_def)
  qed
qed

lemma rejectInFlight_eq:
  "rejectInFlight es s =
     s\<lparr>timers := filter (\<lambda>t. Some (fst t) \<notin> set (map (timeoutId \<circ> snd) es)) (timers s),
       settled := settled s @ map (\<lambda>e. (promise (snd e), Rejected PoolClosing)) es,
       workerTaskMap := filter (\<lambda>e. fst e \<notin> fst ` set es) (workerTaskMap s)\<rparr>"
proof (induction es arbitrary: s)
  case Nil
  then show ?case by simp
next
  case (Cons e es)
  show ?case
    by (rule AsyncJson.equality)
       (auto simp: Cons.IH Let_def prim AList.delete_eq case_prod_unfold
             split: option.splits intro!: filter_cong)
qed

lemma terminated_foldl: "foldl terminate s ws = s\<lparr>terminated := terminated s \<union> set ws\<rparr>"
  by (induction ws arbitrary: s) (auto simp: terminate_def)

lemma close_eq:
  "close s =
     s\<lparr>isClosing := True, taskQueue := [],
       settled := settled s
          @ map (\<lambda>i. (item_promise i, Rejected PoolClosing)) (taskQueue s)
          @ map (\<lambda>e. (promise (snd e), Rejected PoolClosing)) (workerTaskMap s),
       timers := filter (\<lambda>t. Some (fst t) \<notin> set (map (timeoutId \<circ> snd) (workerTaskMap s)))
                   (timers s),
       workerTaskMap := [],
       terminated := terminated s \<union> set (workers s)\<rparr>"
  by (simp add: close_def Let_def rejectQueued_eq rejectInFlight_eq terminated_foldl)

subsection \<open>The registry invariant\<close>

lemma inv_registry_cong:
  assumes "workers X = workers Y" "idleWorkers X = idleWorkers Y"
    "workerTaskMap X = workerTaskMap Y" "isClosing X = isClosing Y"
    "nextWorker X = nextWorker Y" "retired X = retired Y"
  shows "inv_registry X \<longleftrightarrow> inv_registry Y"
  using assms by (simp add: inv_registry_def)

lemma inv_registryD:
  assumes "inv_registry s"
  shows "set (workers s) \<inter> retired s = {}"
    and "set (idleWorkers s) \<subseteq> set (workers s)"
    and "distinct (workers s)"
    and "fst ` set (workerTaskMap s) \<subseteq> set (workers s)"
    and "isClosing s \<Longrightarrow> workerTaskMap s = []"
    and "set (workers s) \<union> retired s = {..<nextWorker s}"
    and "distinct (idleWorkers s)"
    and "fst ` set (workerTaskMap s) \<inter> set (idleWorkers s) = {}"
  using assms by (simp_all only: inv_registry_def)

lemma inv_registry_dispatch: "inv_registry s \<Longrightarrow> inv_registry (snd (dispatch s))"
proof (cases s rule: dispatch_cases)
  case noop
  assume "inv_registry s"
  with noop show ?thesis by simp
next
  case (assign item q w ws)
  assume "inv_registry s"
  then show ?thesis
    using assign(1,3) unfolding assign(4) inv_registry_def retired_def
    by (auto simp: AList.dom_update AList.distinct_update)
qed

lemma inv_registry_push:
  assumes "inv_registry s" "\<not> isClosing s"
  shows "inv_registry (s\<lparr>nextWorker := Suc (nextWorker s),
          workers := workers s @ [nextWorker s],
          idleWorkers := idleWorkers s @ [nextWorker s]\<rparr>)"
proof -
  from assms(1) have fresh: "nextWorker s \<notin> set (workers s)" "nextWorker s \<notin> retired s"
    unfolding inv_registry_def by auto
  with assms show ?thesis
    unfolding inv_registry_def retired_def
    by (auto simp: lessThan_Suc)
qed

lemma inv_registry_evict:
  assumes I: "inv_registry s" and w: "w < nextWorker s"
    and X: "workers X = filter (\<lambda>y. y \<noteq> w) (workers s)"
      "idleWorkers X = filter (\<lambda>y. y \<noteq> w) (idleWorkers s)"
      "workerTaskMap X = AList.delete w (workerTaskMap s)"
      "isClosing X = isClosing s" "nextWorker X = nextWorker s"
      "retired X = insert w (retired s)"
  shows "inv_registry X"
  using I w unfolding inv_registry_def X
  by (auto simp: keys_delete AList.distinct_delete)

lemma inv_registry_complete:
  assumes I: "inv_registry s" and h: "map_of (workerTaskMap s) w = Some h"
    and X: "workers X = workers s" "idleWorkers X = idleWorkers s @ [w]"
      "workerTaskMap X = AList.delete w (workerTaskMap s)"
      "isClosing X = isClosing s" "nextWorker X = nextWorker s"
      "retired X = retired s"
  shows "inv_registry X"
proof -
  from h have "w \<in> fst ` set (workerTaskMap s)" by (rule map_of_keys)
  with I show ?thesis
    unfolding inv_registry_def X
    by (auto simp: keys_delete AList.distinct_delete)
qed

subsection \<open>The timer invariant\<close>

lemma inv_timers_cong:
  assumes "timers X = timers Y" "nextTimer X = nextTimer Y" "workerTaskMap X = workerTaskMap Y"
  shows "inv_timers X \<longleftrightarrow> inv_timers Y"
  using assms by (simp add: inv_timers_def)

lemma inv_timers_dispatch:
  assumes "inv_registry s" "inv_timers s"
  shows "inv_timers (snd (dispatch s))"
proof (cases s rule: dispatch_cases)
  case noop
  with assms show ?thesis by simp
next
  case (assign item q w ws)
  from assms(1) assign(3) have k: "w \<notin> fst ` set (workerTaskMap s)"
    unfolding inv_registry_def by auto
  show ?thesis
    unfolding assign(4) using assms(2) k unfolding inv_timers_def
    by (fastforce simp: AList.update_conv' less_Suc_eq dest: map_of_keys)
qed

lemma inv_timers_release:
  assumes I: "inv_timers s" and h: "map_of (workerTaskMap s) w = Some h"
    and X: "timers X = (case timeoutId h of None \<Rightarrow> timers s
                         | Some tid \<Rightarrow> AList.delete tid (timers s))"
      "nextTimer X = nextTimer s" "workerTaskMap X = AList.delete w (workerTaskMap s)"
  shows "inv_timers X"
  using I h unfolding inv_timers_def X
  by (auto simp: set_delete map_of_delete_eq split: option.splits)

lemma inv_timers_fired:
  assumes I: "inv_timers s" and t: "map_of (timers s) tid = Some (w, p)"
  shows "map_of (workerTaskMap s) w = Some \<lparr>promise = p, timeoutId = Some tid\<rparr>"
  using I map_of_SomeD[OF t] unfolding inv_timers_def by blast

lemma inv_timers_close: "inv_timers s \<Longrightarrow> timers (close s) = []"
proof -
  assume I: "inv_timers s"
  have "Some (fst t) \<in> set (map (timeoutId \<circ> snd) (workerTaskMap s))" if "t \<in> set (timers s)" for t
  proof -
    obtain tid w p where t: "t = (tid, w, p)" by (cases t)
    with I that have "map_of (workerTaskMap s) w = Some \<lparr>promise = p, timeoutId = Some tid\<rparr>"
      unfolding inv_timers_def by blast
    then have "(w, \<lparr>promise = p, timeoutId = Some tid\<rparr>) \<in> set (workerTaskMap s)"
      by (rule map_of_SomeD)
    then show ?thesis unfolding t by force
  qed
  then show ?thesis by (simp add: close_eq filter_empty_conv)
qed

subsection \<open>The promise invariant\<close>

lemma inv_promises_mset:
  assumes "inv_promises s" "mset (pending X @ settledIds X) = mset (pending s @ settledIds s)"
    "nextPromise X = nextPromise s"
  shows "inv_promises X"
proof -
  from assms(2) have "distinct (pending X @ settledIds X) = distinct (pending s @ settledIds s)"
    by (rule mset_eq_imp_distinct_iff)
  moreover from assms(2) have "set (pending X @ settledIds X) = set (pending s @ settledIds s)"
    by (rule mset_eq_setD)
  ultimately show ?thesis using assms(1,3) by (simp add: inv_promises_def)
qed

lemma inv_promises_dispatch:
  assumes "inv_registry s" "inv_promises s"
  shows "inv_promises (snd (dispatch s))"
proof (cases s rule: dispatch_cases)
  case noop
  with assms show ?thesis by simp
next
  case (assign item q w ws)
  from assms(1) assign(3) have k: "w \<notin> fst ` set (workerTaskMap s)"
    unfolding inv_registry_def by auto
  show ?thesis
    using assms(2)
    by (rule inv_promises_mset)
       (simp_all add: assign pending_def settledIds_def update_fresh[OF k])
qed

lemma inv_promises_release:
  assumes I: "inv_promises s" and R: "inv_registry s"
    and h: "map_of (workerTaskMap s) w = Some h"
    and X: "taskQueue X = taskQueue s" "workerTaskMap X = AList.delete w (workerTaskMap s)"
      "settled X = settled s @ [(promise h, r)]" "nextPromise X = nextPromise s"
  shows "inv_promises X"
proof -
  from R have d: "distinct (map fst (workerTaskMap s))" by (simp add: inv_registry_def)
  from delete_entry_values[OF d h, of "promise \<circ> snd"]
  have "mset (pending X @ settledIds X) = mset (pending s @ settledIds s)"
    by (simp add: pending_def settledIds_def X)
  with I show ?thesis by (rule inv_promises_mset) (simp add: X)
qed

lemma inv_promises_fresh:
  assumes I: "inv_promises s"
    and m: "mset (pending X @ settledIds X) = mset (pending s @ settledIds s @ [nextPromise s])"
    and n: "nextPromise X = Suc (nextPromise s)"
  shows "inv_promises X"
proof -
  from I have "nextPromise s \<notin> set (pending s @ settledIds s)"
    unfolding inv_promises_def by auto
  with I have "distinct (pending s @ settledIds s @ [nextPromise s])"
    "set (pending s @ settledIds s @ [nextPromise s]) = {..<Suc (nextPromise s)}"
    unfolding inv_promises_def by (auto simp: lessThan_Suc)
  then show ?thesis
    unfolding inv_promises_def n
    using mset_eq_imp_distinct_iff[OF m] mset_eq_setD[OF m] by simp
qed

lemma inv_promises_close: "inv_promises s \<Longrightarrow> inv_promises (close s)"
  by (rule inv_promises_mset) (simp_all add: close_eq pending_def settledIds_def comp_def)

subsection \<open>Closing and balance\<close>

lemma inv_closing_dispatch: "inv_closing s \<Longrightarrow> inv_closing (snd (dispatch s))"
  by (cases s rule: dispatch_cases) (auto simp: inv_closing_def)

lemma inv_closing_shrink:
  assumes "inv_closing s" "isClosing X = isClosing s" "taskQueue X = taskQueue s"
    "set (workers X) \<subseteq> set (workers s)" "terminated s \<subseteq> terminated X"
  shows "inv_closing X"
  using assms unfolding inv_closing_def by auto

lemma inv_terminated_frame:
  assumes "inv_terminated s" "terminated X = terminated s" "exited s \<subseteq> exited X"
    "timedOutWorkers s \<subseteq> timedOutWorkers X" "isClosing s \<longrightarrow> isClosing X"
  shows "inv_terminated X"
  using assms unfolding inv_terminated_def by auto

lemma inv_terminated_dispatch: "inv_terminated s \<Longrightarrow> inv_terminated (snd (dispatch s))"
  using inv_terminated_frame[of s "snd (dispatch s)"] by (simp add: dispatch_frame)

lemma inv_terminated_spawnWorker:
  "inv_terminated s \<Longrightarrow> inv_terminated (snd (spawnWorker s))"
  using inv_terminated_frame[of s "snd (spawnWorker s)"] by (simp add: spawnWorker_frame)

lemma balanced_dispatch:
  "length (taskQueue s) \<le> 1 \<or> length (idleWorkers s) \<le> 1 \<Longrightarrow>
   \<not> isClosing s \<or> taskQueue s = [] \<Longrightarrow> balanced (snd (dispatch s))"
  by (cases s rule: dispatch_cases) (auto simp: balanced_def)

lemma balanced_dispatch': "balanced s \<Longrightarrow> balanced (snd (dispatch s))"
  by (cases s rule: dispatch_cases) (auto simp: balanced_def)

lemma balanced_spawnWorker: "balanced s \<Longrightarrow> balanced (snd (spawnWorker s))"
proof (cases "isClosing s")
  case True
  assume "balanced s"
  with True show ?thesis by (simp add: spawnWorker_closing)
next
  case False
  assume "balanced s"
  then show ?thesis
    unfolding spawnWorker_open[OF False] using False
    by (intro balanced_dispatch) (auto simp: balanced_def)
qed

lemma balanced_shrink:
  assumes "balanced s" "taskQueue X = taskQueue s"
    "set (idleWorkers X) \<subseteq> set (idleWorkers s)"
  shows "balanced X"
  using assms unfolding balanced_def by auto

subsection \<open>The invariant is kept by every handler\<close>

lemma inv_core_dispatch: "inv_core s \<Longrightarrow> inv_core (snd (dispatch s))"
  unfolding inv_core_def
  by (simp add: inv_registry_dispatch inv_timers_dispatch inv_closing_dispatch
      inv_terminated_dispatch)

lemma inv_core_spawnWorker:
  assumes I: "inv_core s"
  shows "inv_core (snd (spawnWorker s))"
proof (cases "isClosing s")
  case True
  with I show ?thesis by (simp add: spawnWorker_closing)
next
  case False
  let ?P = "s\<lparr>nextWorker := Suc (nextWorker s), workers := workers s @ [nextWorker s],
               idleWorkers := idleWorkers s @ [nextWorker s]\<rparr>"
  from I False have "inv_registry ?P"
    by (simp add: inv_core_def inv_registry_push)
  moreover from I have "inv_timers ?P" "inv_terminated ?P"
    by (simp_all add: inv_core_def inv_timers_def inv_terminated_def)
  moreover from False have "inv_closing ?P" by (simp add: inv_closing_def)
  ultimately have "inv_core ?P" by (simp add: inv_core_def)
  then show ?thesis unfolding spawnWorker_open[OF False] by (rule inv_core_dispatch)
qed

lemma inv_registry_frame:
  assumes "inv_registry s" "workers X = workers s" "idleWorkers X = idleWorkers s"
    "workerTaskMap X = workerTaskMap s" "isClosing X = isClosing s"
    "nextWorker X = nextWorker s" "retired X = retired s"
  shows "inv_registry X"
  using assms inv_registry_cong[of X s] by simp

lemma inv_timers_frame:
  assumes "inv_timers s" "timers X = timers s" "nextTimer X = nextTimer s"
    "workerTaskMap X = workerTaskMap s"
  shows "inv_timers X"
  using assms inv_timers_cong[of X s] by simp

text \<open>The invariant does not look at the logs, nor at the counter of promises.\<close>

lemma pool_inv_logs:
  "pool_inv (s\<lparr>settled := l\<rparr>) = pool_inv s"
  "pool_inv (s\<lparr>nextPromise := n\<rparr>) = pool_inv s"
  by (simp_all add: pool_inv_def inv_core_def inv_registry_def retired_def inv_timers_def
      inv_closing_def inv_terminated_def balanced_def)

lemma pool_inv_dispatch:
  assumes "inv_core s" "length (taskQueue s) \<le> 1 \<or> length (idleWorkers s) \<le> 1"
    "\<not> isClosing s \<or> taskQueue s = []"
  shows "pool_inv (snd (dispatch s))"
  using assms by (simp add: pool_inv_def inv_core_dispatch balanced_dispatch)

lemma pool_inv_runTask:
  assumes I: "pool_inv s"
  shows "pool_inv (snd (runTask s t))"
proof (cases "isClosing s")
  case True
  with I show ?thesis by (simp add: runTask_closing pool_inv_logs)
next
  case False
  from I have R: "inv_registry s" and T: "inv_timers s"
    and C: "inv_closing s" and D: "inv_terminated s" and B: "balanced s"
    by (simp_all add: pool_inv_def inv_core_def)
  let ?X = "s\<lparr>nextPromise := Suc (nextPromise s),
               taskQueue := taskQueue s @ [\<lparr>task = t, item_promise = nextPromise s\<rparr>]\<rparr>"
  have "inv_registry ?X"
    by (rule inv_registry_frame[OF R]) (simp_all add: retired_def)
  moreover have "inv_timers ?X"
    by (rule inv_timers_frame[OF T]) simp_all
  moreover from False have "inv_closing ?X"
    by (simp add: inv_closing_def)
  moreover from D have "inv_terminated ?X"
    by (simp add: inv_terminated_def)
  ultimately have "inv_core ?X" by (simp add: inv_core_def)
  moreover from B have "length (taskQueue ?X) \<le> 1 \<or> length (idleWorkers ?X) \<le> 1"
    by (auto simp: balanced_def)
  ultimately have "pool_inv (snd (dispatch ?X))"
    using False by (intro pool_inv_dispatch) simp_all
  then show ?thesis
    unfolding runTask_state[OF False]
    by (simp add: Let_def pool_inv_logs split: option.splits)
qed

lemma pool_inv_onMessage:
  assumes I: "pool_inv s"
  shows "pool_inv (snd (onMessage s w m))"
proof (cases "map_of (workerTaskMap s) w")
  case None
  with I show ?thesis by (simp add: onMessage_None)
next
  case (Some h)
  let ?X = "(release s w h (outcome m))\<lparr>idleWorkers := idleWorkers s @ [w]\<rparr>"
  from I have R: "inv_registry s" and T: "inv_timers s"
    and C: "inv_closing s" and D: "inv_terminated s" and B: "balanced s"
    by (simp_all add: pool_inv_def inv_core_def)
  have "inv_registry ?X"
    by (rule inv_registry_complete[OF R Some]) (simp_all add: release_fields retired_def)
  moreover have "inv_timers ?X"
    by (rule inv_timers_release[OF T Some]) (simp_all add: release_fields)
  moreover have "inv_closing ?X"
    by (rule inv_closing_shrink[OF C]) (simp_all add: release_fields)
  moreover have "inv_terminated ?X"
    by (rule inv_terminated_frame[OF D]) (simp_all add: release_fields)
  ultimately have "inv_core (snd (dispatch ?X))"
    by (intro inv_core_dispatch) (simp add: inv_core_def)
  moreover from B C have "balanced (snd (dispatch ?X))"
    by (intro balanced_dispatch) (auto simp: balanced_def inv_closing_def release_fields)
  ultimately show ?thesis
    unfolding onMessage_Some[OF Some] by (simp add: pool_inv_def)
qed

lemma worker_registered:
  assumes "inv_registry s" "w < nextWorker s" "w \<notin> retired s"
  shows "w \<in> set (workers s)"
  using assms unfolding inv_registry_def by blast

text \<open>
  The step the error handler, the exit handler and the timeout callback share: worker
  \<open>w\<close>, registered or not, is struck from the lists and retired, its assignment, if
  any, is deleted with its timer, and \<open>spawnWorker\<close> runs.
\<close>

lemma pool_inv_evict_spawn:
  assumes I: "pool_inv s" and w: "w < nextWorker s"
    and X: "workers X = filter (\<lambda>y. y \<noteq> w) (workers s)"
      "idleWorkers X = filter (\<lambda>y. y \<noteq> w) (idleWorkers s)"
      "isClosing X = isClosing s" "nextWorker X = nextWorker s"
      "retired X = insert w (retired s)"
      "taskQueue X = taskQueue s" "nextTimer X = nextTimer s"
      "terminated s \<subseteq> terminated X"
    and D: "inv_terminated X"
    and E: "(map_of (workerTaskMap s) w = None \<and> workerTaskMap X = workerTaskMap s
              \<and> timers X = timers s)
          \<or> (\<exists>h. map_of (workerTaskMap s) w = Some h
              \<and> workerTaskMap X = AList.delete w (workerTaskMap s)
              \<and> timers X = (case timeoutId h of None \<Rightarrow> timers s
                             | Some tid \<Rightarrow> AList.delete tid (timers s)))"
  shows "pool_inv (snd (spawnWorker X))" "inv_core X" "balanced X"
proof -
  from I have R: "inv_registry s" and T: "inv_timers s"
    and C: "inv_closing s" and B: "balanced s"
    by (simp_all add: pool_inv_def inv_core_def)
  have wtm: "workerTaskMap X = AList.delete w (workerTaskMap s)"
    using E by (auto simp: map_of_None_keys)
  have RX: "inv_registry X"
    using inv_registry_evict[OF R w X(1,2) wtm X(3,4,5)] .
  have TX: "inv_timers X"
  proof -
    from E show ?thesis
    proof (elim disjE exE conjE)
      assume "map_of (workerTaskMap s) w = None" "workerTaskMap X = workerTaskMap s"
        "timers X = timers s"
      with T X show ?thesis by (simp add: inv_timers_def)
    next
      fix h
      assume "map_of (workerTaskMap s) w = Some h"
        "workerTaskMap X = AList.delete w (workerTaskMap s)"
        "timers X = (case timeoutId h of None \<Rightarrow> timers s
                             | Some tid \<Rightarrow> AList.delete tid (timers s))"
      then show ?thesis using X by (intro inv_timers_release[OF T]) simp_all
    qed
  qed
  have CX: "inv_closing X"
    by (rule inv_closing_shrink[OF C]) (simp_all add: X)
  show core: "inv_core X" using RX TX CX D by (simp add: inv_core_def)
  show BX: "balanced X" by (rule balanced_shrink[OF B]) (simp_all add: X)
  from core have "inv_core (snd (spawnWorker X))" by (rule inv_core_spawnWorker)
  with BX show "pool_inv (snd (spawnWorker X))"
    by (simp add: pool_inv_def balanced_spawnWorker)
qed

lemma pool_inv_onError:
  assumes I: "pool_inv s" and w: "w < nextWorker s"
  shows "pool_inv (snd (onError s w err))"
proof -
  from I have D: "inv_terminated s" by (simp add: pool_inv_def inv_core_def)
  show ?thesis
  proof (cases "map_of (workerTaskMap s) w")
    case None
    let ?X = "removeWorker (s\<lparr>erroredWorkers := insert w (erroredWorkers s)\<rparr>) w"
    have DX: "inv_terminated ?X"
      by (rule inv_terminated_frame[OF D]) (simp_all add: prim)
    show ?thesis
      unfolding onError_None[OF None]
      by (rule pool_inv_evict_spawn(1)[OF I w _ _ _ _ _ _ _ _ DX])
         (simp_all add: prim retired_def None)
  next
    case (Some h)
    let ?X = "removeWorker
       (release (s\<lparr>erroredWorkers := insert w (erroredWorkers s)\<rparr>) w h
          (Rejected (WorkerFault err))) w"
    have DX: "inv_terminated ?X"
      by (rule inv_terminated_frame[OF D]) (simp_all add: prim release_fields)
    show ?thesis
      unfolding onError_Some[OF Some]
      by (rule pool_inv_evict_spawn(1)[OF I w _ _ _ _ _ _ _ _ DX])
         (simp_all add: prim release_fields retired_def Some split: option.splits)
  qed
qed

lemma pool_inv_onExit:
  assumes I: "pool_inv s" and A: "admissible s (Exit w code)"
  shows "pool_inv (snd (onExit (s\<lparr>exited := insert w (exited s)\<rparr>) w code))"
proof -
  let ?s0 = "s\<lparr>exited := insert w (exited s)\<rparr>"
  from I have R: "inv_registry s" and T: "inv_timers s"
    and C: "inv_closing s" and D: "inv_terminated s" and B: "balanced s"
    by (simp_all add: pool_inv_def inv_core_def)
  from A have w: "w < nextWorker s" and ne: "w \<notin> exited s"
    and c: "code = 0 \<Longrightarrow> w \<in> terminated s"
    by simp_all
  have removed: "pool_inv (removeWorker (?s0\<lparr>timedOutWorkers := timedOutWorkers ?s0 - {w},
                     erroredWorkers := erroredWorkers ?s0 - {w}\<rparr>) w)"
    (is "pool_inv ?X")
    if nk: "w \<notin> fst ` set (workerTaskMap s)"
  proof -
    have "inv_registry ?X"
      by (rule inv_registry_evict[OF R w])
         (use nk in \<open>auto simp: prim retired_def delete_filter intro: filter_True[symmetric]\<close>)
    moreover have "inv_timers ?X"
      by (rule inv_timers_frame[OF T]) (simp_all add: prim)
    moreover have "inv_closing ?X"
      by (rule inv_closing_shrink[OF C]) (simp_all add: prim)
    moreover from D have "inv_terminated ?X"
      unfolding inv_terminated_def by (auto simp: prim)
    moreover have "balanced ?X"
      by (rule balanced_shrink[OF B]) (simp_all add: prim)
    ultimately show ?thesis by (simp add: pool_inv_def inv_core_def)
  qed
  show ?thesis
  proof (cases "w \<in> timedOutWorkers s \<or> w \<in> erroredWorkers s")
    case True
    then have "w \<in> retired s" by (auto simp: retired_def)
    with R have nk: "w \<notin> fst ` set (workerTaskMap s)"
      unfolding inv_registry_def by auto
    have "onExit ?s0 w code =
        (None, removeWorker (?s0\<lparr>timedOutWorkers := timedOutWorkers ?s0 - {w},
                     erroredWorkers := erroredWorkers ?s0 - {w}\<rparr>) w)"
      using True by (intro onExit_attributed) simp
    with removed[OF nk] show ?thesis by simp
  next
    case False
    with ne have nr: "w \<notin> retired s" by (simp add: retired_def)
    from R w nr have win: "w \<in> set (workers s)" by (rule worker_registered)
    show ?thesis
    proof (cases "code = 0")
      case True
      with c have "w \<in> terminated s" by simp
      with D ne False have cl: "isClosing s" unfolding inv_terminated_def by auto
      with R have "workerTaskMap s = []" unfolding inv_registry_def by simp
      then have nk: "w \<notin> fst ` set (workerTaskMap s)" by simp
      from removed[OF nk] True show ?thesis by (simp add: onExit_zero)
    next
      case nz: False
      have DX: "inv_terminated (removeWorker ?s0 w)"
        "inv_terminated (removeWorker (release ?s0 w h r) w)" for h r
        using D unfolding inv_terminated_def by (auto simp: prim release_fields)
      show ?thesis
      proof (cases "map_of (workerTaskMap s) w")
        case None
        have eq: "onExit ?s0 w code = spawnWorker (removeWorker ?s0 w)"
          using False nz None by (intro onExit_plain) simp_all
        show ?thesis
          unfolding eq
          by (rule pool_inv_evict_spawn(1)[OF I w _ _ _ _ _ _ _ _ DX(1)])
             (use False in \<open>auto simp: prim retired_def None\<close>)
      next
        case (Some h)
        with R have nc: "\<not> isClosing s" unfolding inv_registry_def by auto
        have eq: "onExit ?s0 w code =
            spawnWorker (removeWorker (release ?s0 w h (Rejected (WorkerExited code))) w)"
          using False nz nc Some by (intro onExit_busy) simp_all
        show ?thesis
          unfolding eq
          by (rule pool_inv_evict_spawn(1)[OF I w _ _ _ _ _ _ _ _ DX(2)])
             (use False in \<open>auto simp: prim release_fields retired_def Some
                 split: option.splits\<close>)
      qed
    qed
  qed
qed

lemma pool_inv_timeout:
  assumes I: "pool_inv s"
  shows "pool_inv (fire s (TimeoutFired tid))"
proof (cases "map_of (timers s) tid")
  case None
  with I show ?thesis by simp
next
  case (Some wp)
  obtain w p where wp: "wp = (w, p)" by (cases wp)
  from I have R: "inv_registry s" and T: "inv_timers s" and D: "inv_terminated s"
    by (simp_all add: pool_inv_def inv_core_def)
  let ?h = "\<lparr>promise = p, timeoutId = Some tid\<rparr>"
  from T Some have h: "map_of (workerTaskMap s) w = Some ?h"
    unfolding wp by (rule inv_timers_fired)
  then have k: "w \<in> fst ` set (workerTaskMap s)" by (rule map_of_keys)
  with R have win: "w \<in> set (workers s)" unfolding inv_registry_def by auto
  with R have w: "w < nextWorker s"
    unfolding inv_registry_def by auto
  let ?X = "removeWorker
       ((clearTimeout s tid)\<lparr>workerTaskMap := AList.delete w (workerTaskMap s),
          settled := settled s @ [(p, Rejected TaskTimedOut)],
          timedOutWorkers := insert w (timedOutWorkers s),
          terminated := insert w (terminated s)\<rparr>) w"
  have h': "map_of (workerTaskMap (clearTimeout s tid)) w = Some ?h"
    using h by (simp add: prim)
  have st: "snd (timeoutCallback (clearTimeout s tid) w p) = snd (dispatch (snd (spawnWorker ?X)))
      \<or> snd (timeoutCallback (clearTimeout s tid) w p) = snd (spawnWorker ?X)"
    using timeoutCallback_state[OF h', of p] by (simp add: prim)
  have DX: "inv_terminated ?X"
    using D unfolding inv_terminated_def by (auto simp: prim)
  have P: "pool_inv (snd (spawnWorker ?X))"
    by (rule pool_inv_evict_spawn(1)[OF I w _ _ _ _ _ _ _ _ DX])
       (auto simp: prim retired_def h)
  then have "pool_inv (snd (dispatch (snd (spawnWorker ?X))))"
    by (simp add: pool_inv_def inv_core_dispatch balanced_dispatch')
  with P st have "pool_inv (snd (timeoutCallback (clearTimeout s tid) w p))"
    by auto
  with Some wp show ?thesis by simp
qed

lemma pool_inv_close:
  assumes I: "pool_inv s"
  shows "pool_inv (close s)"
proof -
  from I have R: "inv_registry s" and T: "inv_timers s"
    by (simp_all add: pool_inv_def inv_core_def)
  from R have "inv_registry (close s)"
    unfolding close_eq inv_registry_def retired_def by auto
  moreover from T have "inv_timers (close s)"
    using inv_timers_close[OF T] by (simp add: inv_timers_def)
  moreover have "inv_closing (close s)" "balanced (close s)" "inv_terminated (close s)"
    by (simp_all add: close_eq inv_closing_def balanced_def inv_terminated_def)
  ultimately show ?thesis by (simp add: pool_inv_def inv_core_def)
qed

lemma pool_inv_fire:
  assumes "pool_inv s" "admissible s e"
  shows "pool_inv (fire s e)"
proof (cases e)
  case (Submit t)
  with assms show ?thesis by (simp add: pool_inv_runTask)
next
  case (Message w m)
  with assms show ?thesis by (simp add: pool_inv_onMessage)
next
  case (Fault w err)
  with assms show ?thesis by (simp add: pool_inv_onError)
next
  case (Exit w code)
  with assms show ?thesis using pool_inv_onExit[of s w code] by simp
next
  case (TimeoutFired tid)
  with assms show ?thesis by (simp only: pool_inv_timeout)
next
  case Close
  with assms show ?thesis by (simp add: pool_inv_close)
qed

text \<open>While the queue is empty, \<open>spawnWorker\<close> does not throw: the constructor
  always returns.\<close>

lemma spawnWorker_idle:
  assumes "taskQueue s = []"
  shows "fst (spawnWorker s) = None" "taskQueue (snd (spawnWorker s)) = []"
  using assms
  by (cases "isClosing s"; simp add: spawnWorker_closing spawnWorker_open dispatch_noop)+

lemma initWorkers_loop_returns:
  "taskQueue s = [] \<Longrightarrow> fst (initWorkers_loop n s) = None"
proof (induction n arbitrary: s)
  case 0
  then show ?case by simp
next
  case (Suc n)
  obtain r s1 where sp: "spawnWorker s = (r, s1)" by (cases "spawnWorker s")
  with spawnWorker_idle[OF Suc.prems] have "r = None" "taskQueue s1 = []" by simp_all
  with sp Suc.IH[of s1] show ?case by simp
qed

lemma initWorkers_returns:
  "fst (initWorkers
       \<lparr>numThreads = n, taskTimeoutMs = tmo, workers = [], idleWorkers = [],
        taskQueue = [], workerTaskMap = [], isClosing = False,
        timedOutWorkers = {}, erroredWorkers = {},
        nextWorker = 0, nextPromise = 0, nextTimer = 0, timers = [],
        settled = [], posted = [], terminated = {}, exited = {}\<rparr>) = None"
  by (simp add: initWorkers_def initWorkers_loop_returns)

lemma initWorkers_loop_inv:
  assumes "pool_inv s" "\<not> isClosing s"
  shows "pool_inv (snd (initWorkers_loop n s)) \<and> \<not> isClosing (snd (initWorkers_loop n s))"
  using assms
proof (induction n arbitrary: s)
  case 0
  then show ?case by simp
next
  case (Suc n)
  obtain r s1 where sp: "spawnWorker s = (r, s1)" by (cases "spawnWorker s")
  then have s1: "s1 = snd (spawnWorker s)" by simp
  from Suc.prems have "inv_core s1"
    unfolding s1 by (intro inv_core_spawnWorker) (simp_all add: pool_inv_def)
  moreover from Suc.prems have "balanced s1"
    unfolding s1 by (intro balanced_spawnWorker) (simp add: pool_inv_def)
  ultimately have P: "pool_inv s1" by (simp add: pool_inv_def)
  from Suc.prems have nc: "\<not> isClosing s1"
    unfolding s1 by (simp add: spawnWorker_frame)
  show ?case
  proof (cases r)
    case None
    with sp Suc.IH[OF P nc] show ?thesis by simp
  next
    case (Some e)
    with sp P nc show ?thesis by simp
  qed
qed

lemma pool_inv_new: "pool_inv (new_AsyncJson n tmo)"
proof -
  let ?e = "\<lparr>numThreads = n, taskTimeoutMs = tmo, workers = [], idleWorkers = [],
        taskQueue = [], workerTaskMap = [], isClosing = False,
        timedOutWorkers = {}, erroredWorkers = {},
        nextWorker = 0, nextPromise = 0, nextTimer = 0, timers = [],
        settled = [], posted = [], terminated = {}, exited = {}\<rparr>"
  have "pool_inv ?e"
    by (simp add: pool_inv_def inv_core_def inv_registry_def retired_def inv_timers_def
        inv_closing_def inv_terminated_def balanced_def)
  then show ?thesis
    unfolding new_AsyncJson_def initWorkers_def
    using initWorkers_loop_inv[of ?e n] by simp
qed

lemma reachable_pool_inv: "reachable s \<Longrightarrow> pool_inv s"
  by (induction rule: reachable.induct) (simp_all add: pool_inv_new pool_inv_fire)

subsection \<open>The concrete pools, evaluated\<close>

lemma pool1_eq:
  "pool1 = \<lparr>numThreads = 1, taskTimeoutMs = Some 50, workers = [0], idleWorkers = [0],
     taskQueue = [], workerTaskMap = [], isClosing = False,
     timedOutWorkers = {}, erroredWorkers = {},
     nextWorker = 1, nextPromise = 0, nextTimer = 0, timers = [],
     settled = [], posted = [], terminated = {}, exited = {}\<rparr>"
  by (simp add: pool1_def new_AsyncJson_def initWorkers_def spawnWorker_def
      createWorker_def dispatch_def)

lemma busy1_eq:
  "busy1 = \<lparr>numThreads = 1, taskTimeoutMs = Some 50, workers = [0], idleWorkers = [],
     taskQueue = [], workerTaskMap = [(0, \<lparr>promise = 0, timeoutId = Some 0\<rparr>)],
     isClosing = False, timedOutWorkers = {}, erroredWorkers = {},
     nextWorker = 1, nextPromise = 1, nextTimer = 1, timers = [(0, 0, 0)],
     settled = [], posted = [(0, hang_task)], terminated = {}, exited = {}\<rparr>"
  by (simp add: busy1_def pool1_eq runTask_def Let_def dispatch_def postMessage_def hang_task_def)

lemma queued1_eq:
  "queued1 = \<lparr>numThreads = 1, taskTimeoutMs = Some 50, workers = [0], idleWorkers = [],
     taskQueue = [\<lparr>task = parse_task, item_promise = 1\<rparr>],
     workerTaskMap = [(0, \<lparr>promise = 0, timeoutId = Some 0\<rparr>)],
     isClosing = False, timedOutWorkers = {}, erroredWorkers = {},
     nextWorker = 1, nextPromise = 2, nextTimer = 1, timers = [(0, 0, 0)],
     settled = [], posted = [(0, hang_task)], terminated = {}, exited = {}\<rparr>"
  by (simp add: queued1_def busy1_eq runTask_def Let_def dispatch_def)

lemma timedout1_eq:
  "timedout1 = \<lparr>numThreads = 1, taskTimeoutMs = Some 50, workers = [1], idleWorkers = [1],
     taskQueue = [], workerTaskMap = [], isClosing = False,
     timedOutWorkers = {0}, erroredWorkers = {},
     nextWorker = 2, nextPromise = 1, nextTimer = 1, timers = [],
     settled = [(0, Rejected TaskTimedOut)], posted = [(0, hang_task)],
     terminated = {0}, exited = {}\<rparr>"
  by (simp add: timedout1_def busy1_eq timeoutCallback_def Let_def replaceWorker_def
      spawnWorker_def dispatch_def prim)

lemma closing1_eq:
  "closing1 = \<lparr>numThreads = 1, taskTimeoutMs = Some 50, workers = [0], idleWorkers = [],
     taskQueue = [], workerTaskMap = [], isClosing = True,
     timedOutWorkers = {}, erroredWorkers = {},
     nextWorker = 1, nextPromise = 1, nextTimer = 1, timers = [],
     settled = [(0, Rejected PoolClosing)], posted = [(0, hang_task)],
     terminated = {0}, exited = {}\<rparr>"
  by (simp add: closing1_def busy1_eq close_eq)

lemma closed1_eq:
  "closed1 = \<lparr>numThreads = 1, taskTimeoutMs = Some 50, workers = [], idleWorkers = [],
     taskQueue = [], workerTaskMap = [], isClosing = True,
     timedOutWorkers = {}, erroredWorkers = {},
     nextWorker = 1, nextPromise = 1, nextTimer = 1, timers = [],
     settled = [(0, Rejected PoolClosing)], posted = [(0, hang_task)],
     terminated = {0}, exited = {0}\<rparr>"
  by (simp add: closed1_def closing1_eq onExit_def Let_def replaceWorker_def
      spawnWorker_def prim)

lemma overfull1_eq:
  "overfull1 = \<lparr>numThreads = 1, taskTimeoutMs = Some 50, workers = [1, 2],
     idleWorkers = [1, 2], taskQueue = [], workerTaskMap = [], isClosing = False,
     timedOutWorkers = {0}, erroredWorkers = {0},
     nextWorker = 3, nextPromise = 1, nextTimer = 1, timers = [],
     settled = [(0, Rejected TaskTimedOut)], posted = [(0, hang_task)],
     terminated = {0}, exited = {}\<rparr>"
  by (simp add: overfull1_def timedout1_eq onError_def Let_def replaceWorker_def
      spawnWorker_def dispatch_def prim eval_nat_numeral)

lemma enqueued_fn1_eq:
  "enqueued_fn1 = \<lparr>numThreads = 1, taskTimeoutMs = Some 50, workers = [0], idleWorkers = [0],
     taskQueue = [\<lparr>task = fn_task, item_promise = 0\<rparr>], workerTaskMap = [],
     isClosing = False, timedOutWorkers = {}, erroredWorkers = {},
     nextWorker = 1, nextPromise = 1, nextTimer = 0, timers = [],
     settled = [], posted = [], terminated = {}, exited = {}\<rparr>"
  by (simp add: enqueued_fn1_def pool1_eq)




lemma reachable_pool1: "reachable pool1"
  unfolding pool1_def by (rule reachable.init)

lemma reachable_busy1: "reachable busy1"
  unfolding busy1_def by (rule reachable.step[OF reachable_pool1]) simp

lemma reachable_queued1: "reachable queued1"
  unfolding queued1_def by (rule reachable.step[OF reachable_busy1]) simp

lemma reachable_timedout1: "reachable timedout1"
  unfolding timedout1_def by (rule reachable.step[OF reachable_busy1]) simp

lemma reachable_closing1: "reachable closing1"
  unfolding closing1_def by (rule reachable.step[OF reachable_busy1]) simp


subsection \<open>Frames and runs of the event loop\<close>

lemma closing_fire:
  assumes "isClosing s"
  shows "isClosing (fire s e)" "nextWorker (fire s e) = nextWorker s"
    "length (workers (fire s e)) \<le> length (workers s)"
    "set (workers (fire s e)) \<subseteq> set (workers s)"
proof -
  have "isClosing (fire s e) \<and> nextWorker (fire s e) = nextWorker s
      \<and> length (workers (fire s e)) \<le> length (workers s)
      \<and> set (workers (fire s e)) \<subseteq> set (workers s)"
  proof (cases e)
    case (Submit t)
    with assms show ?thesis by (simp add: runTask_closing)
  next
    case (Message w m)
    with assms show ?thesis
      by (cases "map_of (workerTaskMap s) w")
         (simp_all add: onMessage_None onMessage_Some dispatch_frame release_fields)
  next
    case (Fault w err)
    with assms show ?thesis
      by (cases "map_of (workerTaskMap s) w")
         (auto simp: onError_None onError_Some spawnWorker_frame release_fields prim)
  next
    case (Exit w code)
    with assms show ?thesis
      by (auto simp: onExit_def Let_def replaceWorker_def spawnWorker_closing prim)
  next
    case (TimeoutFired tid)
    show ?thesis
    proof (cases "map_of (timers s) tid")
      case None
      with TimeoutFired assms show ?thesis by simp
    next
      case (Some wp)
      obtain w p where wp: "wp = (w, p)" by (cases wp)
      show ?thesis
      proof (cases "map_of (workerTaskMap s) w")
        case None
        with TimeoutFired Some wp assms show ?thesis
          by (simp add: timeoutCallback_None prim)
      next
        case h: (Some h)
        then have "map_of (workerTaskMap (clearTimeout s tid)) w = Some h"
          by (simp add: prim)
        from timeoutCallback_frame(1,2,3)[OF this, of p] TimeoutFired Some wp assms
        show ?thesis by (auto simp: prim)
      qed
    qed
  next
    case Close
    with assms show ?thesis by (simp add: close_eq)
  qed
  then show "isClosing (fire s e)" "nextWorker (fire s e) = nextWorker s"
    "length (workers (fire s e)) \<le> length (workers s)"
    "set (workers (fire s e)) \<subseteq> set (workers s)"
    by simp_all
qed

lemma closing_foldl:
  assumes "isClosing s"
  shows "isClosing (foldl fire s es) \<and> nextWorker (foldl fire s es) = nextWorker s
    \<and> length (workers (foldl fire s es)) \<le> length (workers s)
    \<and> set (workers (foldl fire s es)) \<subseteq> set (workers s)"
  using assms
proof (induction es arbitrary: s)
  case Nil
  then show ?case by simp
next
  case (Cons e es)
  from closing_fire[OF Cons.prems, of e] Cons.IH[of "fire s e"]
  show ?case by auto
qed

lemma close_closing: "isClosing (close s)"
  by (simp add: close_eq)

lemma close_again:
  assumes "pool_inv s" "isClosing s"
  shows "close s = s"
proof -
  from assms have "workerTaskMap s = []" "taskQueue s = []" "set (workers s) \<subseteq> terminated s"
    by (simp_all add: pool_inv_def inv_core_def inv_registry_def inv_closing_def)
  with assms(2) show ?thesis
    by (simp add: close_eq Un_absorb2)
qed

lemma drained1_eq:
  "drained1 = \<lparr>numThreads = 1, taskTimeoutMs = Some 50, workers = [], idleWorkers = [],
     taskQueue = [], workerTaskMap = [], isClosing = True,
     timedOutWorkers = {}, erroredWorkers = {},
     nextWorker = 1, nextPromise = 2, nextTimer = 1, timers = [],
     settled = [(1, Rejected PoolClosing), (0, Rejected PoolClosing)],
     posted = [(0, hang_task)], terminated = {0}, exited = {0}\<rparr>"
  by (simp add: drained1_def queued1_eq close_eq onExit_def Let_def replaceWorker_def
      spawnWorker_def prim)

lemma faulted_closing1_eq:
  "faulted_closing1 = closed1"
  by (simp add: faulted_closing1_def closing1_eq closed1_eq onError_def onExit_def Let_def
      replaceWorker_def spawnWorker_def prim)

lemma reaches_pool_inv: "reaches s s' \<Longrightarrow> pool_inv s \<Longrightarrow> pool_inv s'"
  by (induction rule: reaches.induct) (auto intro: pool_inv_fire)

lemma reaches_closing:
  "reaches s s' \<Longrightarrow> isClosing s \<Longrightarrow> isClosing s' \<and> set (workers s') \<subseteq> set (workers s)"
proof (induction rule: reaches.induct)
  case (here s)
  then show ?case by simp
next
  case (later s s' e)
  then have c: "isClosing s'" and sub: "set (workers s') \<subseteq> set (workers s)" by simp_all
  from closing_fire(1,4)[OF c, of e] sub show ?case by auto
qed


lemma attribution_kept:
  assumes "\<forall>c. e \<noteq> Exit w c"
  shows "w \<in> erroredWorkers s \<Longrightarrow> w \<in> erroredWorkers (fire s e)"
    and "w \<in> timedOutWorkers s \<Longrightarrow> w \<in> timedOutWorkers (fire s e)"
proof -
  have "erroredWorkers s \<inter> {w} \<subseteq> erroredWorkers (fire s e)
      \<and> timedOutWorkers s \<inter> {w} \<subseteq> timedOutWorkers (fire s e)"
  proof (cases e)
    case (Submit t)
    then show ?thesis
      by (cases "isClosing s")
         (simp_all add: runTask_closing runTask_state Let_def dispatch_frame
            split: option.splits)
  next
    case (Message w' m)
    then show ?thesis
      by (cases "map_of (workerTaskMap s) w'")
         (simp_all add: onMessage_None onMessage_Some dispatch_frame release_fields)
  next
    case (Fault w' err)
    then show ?thesis
      by (cases "map_of (workerTaskMap s) w'")
         (auto simp: onError_None onError_Some spawnWorker_frame release_fields prim)
  next
    case (Exit w' code)
    with assms have "w' \<noteq> w" by auto
    with Exit show ?thesis
      by (auto simp: onExit_def Let_def replaceWorker_def spawnWorker_frame prim
          split: option.splits)
  next
    case (TimeoutFired tid)
    show ?thesis
    proof (cases "map_of (timers s) tid")
      case None
      with TimeoutFired show ?thesis by simp
    next
      case (Some wp)
      obtain w' p where wp: "wp = (w', p)" by (cases wp)
      show ?thesis
      proof (cases "map_of (workerTaskMap s) w'")
        case None
        with TimeoutFired Some wp show ?thesis
          by (simp add: timeoutCallback_None prim)
      next
        case h: (Some h)
        then have "map_of (workerTaskMap (clearTimeout s tid)) w' = Some h"
          by (simp add: prim)
        from timeoutCallback_frame(10,11)[OF this, of p] TimeoutFired Some wp
        show ?thesis by (auto simp: prim)
      qed
    qed
  next
    case Close
    then show ?thesis by (simp add: close_eq)
  qed
  then show "w \<in> erroredWorkers s \<Longrightarrow> w \<in> erroredWorkers (fire s e)"
    and "w \<in> timedOutWorkers s \<Longrightarrow> w \<in> timedOutWorkers (fire s e)"
    by auto
qed

lemma onError_spawns:
  "nextWorker (snd (onError s w err)) = (if isClosing s then nextWorker s else Suc (nextWorker s))"
  "w \<in> erroredWorkers (snd (onError s w err))"
  "timedOutWorkers (snd (onError s w err)) = timedOutWorkers s"
  by (cases "map_of (workerTaskMap s) w";
      simp add: onError_None onError_Some spawnWorker_frame release_fields prim)+

lemma onError_count:
  assumes I: "pool_inv s" and win: "w \<in> set (workers s)" and nc: "\<not> isClosing s"
  shows "length (workers (snd (onError s w err))) = length (workers s)"
    "w \<notin> set (workers (snd (onError s w err)))"
proof -
  from I have R: "inv_registry s" by (simp add: pool_inv_def inv_core_def)
  from R have d: "distinct (workers s)" by (simp add: inv_registry_def)
  have len: "Suc (length (filter (\<lambda>y. y \<noteq> w) (workers s))) = length (workers s)"
    using d win by (rule length_filter_remove)
  from R win have "w \<noteq> nextWorker s" unfolding inv_registry_def by auto
  with len nc show "length (workers (snd (onError s w err))) = length (workers s)"
    "w \<notin> set (workers (snd (onError s w err)))"
    by (cases "map_of (workerTaskMap s) w";
        simp add: onError_None onError_Some spawnWorker_frame release_fields prim)+
qed

text \<open>The registered workers of a reachable pool are the workers created that have
  not exited and are not marked as errored or timed out.\<close>

lemma registered_iff:
  assumes "reachable s"
  shows "w \<in> set (workers s) \<longleftrightarrow>
    w < nextWorker s \<and> w \<notin> exited s \<and> w \<notin> erroredWorkers s \<and> w \<notin> timedOutWorkers s"
proof -
  from assms have R: "inv_registry s"
    by (simp add: reachable_pool_inv[unfolded pool_inv_def inv_core_def])
  from inv_registryD(1)[OF R] inv_registryD(6)[OF R] show ?thesis
    unfolding retired_def by blast
qed

text \<open>
  A pool of capacity 1 whose worker 0 is busy with a task that never answers: the
  timer fires (worker 0 is terminated and replaced by worker 1), then the \<open>error\<close>
  event of worker 0 arrives before its \<open>exit\<close>. The error handler does not look at
  \<open>timedOutWorkers\<close> (the exit handler does) and replaces worker 0 once more: two
  workers are registered, and stay registered after the exit of worker 0.
\<close>

lemma fault_after_timeout_exceeds_capacity:
  "reaches (new_AsyncJson 1 (Some 50)) overfull1
   \<and> workers timedout1 = [1]
   \<and> workers overfull1 = [1, 2]
   \<and> idleWorkers overfull1 = [1, 2]
   \<and> numThreads overfull1 = 1
   \<and> length (workers overfull1) > numThreads overfull1
   \<and> admissible overfull1 (Exit 0 1)
   \<and> workers (fire overfull1 (Exit 0 1)) = [1, 2]"
proof -
  have "reaches (new_AsyncJson 1 (Some 50)) busy1"
    unfolding busy1_def pool1_def by (rule reaches.later[OF reaches.here]) simp
  then have "reaches (new_AsyncJson 1 (Some 50)) timedout1"
    unfolding timedout1_def by (rule reaches.later) simp
  then have "reaches (new_AsyncJson 1 (Some 50)) overfull1"
    unfolding overfull1_def by (rule reaches.later) (simp add: timedout1_eq)
  then show ?thesis
    by (simp add: overfull1_eq timedout1_eq onExit_def Let_def removeWorker_def)
qed

lemma dispatch_balanced: "balanced s \<Longrightarrow> dispatch s = (None, s)"
  by (auto simp: balanced_def dispatch_noop)

lemma inv_promises_frame:
  assumes "inv_promises s" "taskQueue X = taskQueue s" "workerTaskMap X = workerTaskMap s"
    "settled X = settled s" "nextPromise X = nextPromise s"
  shows "inv_promises X"
  using assms by (simp add: inv_promises_def pending_def settledIds_def)

lemma inv_promises_spawnWorker:
  assumes R: "inv_registry s" and P: "inv_promises s"
  shows "inv_promises (snd (spawnWorker s))"
proof (cases "isClosing s")
  case True
  with P show ?thesis by (simp add: spawnWorker_closing)
next
  case False
  let ?P = "s\<lparr>nextWorker := Suc (nextWorker s), workers := workers s @ [nextWorker s],
               idleWorkers := idleWorkers s @ [nextWorker s]\<rparr>"
  from R False have "inv_registry ?P" by (rule inv_registry_push)
  moreover have "inv_promises ?P" by (rule inv_promises_frame[OF P]) simp_all
  ultimately show ?thesis
    unfolding spawnWorker_open[OF False] by (rule inv_promises_dispatch)
qed

lemma inv_promises_evict_spawn:
  assumes I: "pool_inv s" and P: "inv_promises s" and w: "w < nextWorker s"
    and X: "workers X = filter (\<lambda>y. y \<noteq> w) (workers s)"
      "idleWorkers X = filter (\<lambda>y. y \<noteq> w) (idleWorkers s)"
      "isClosing X = isClosing s" "nextWorker X = nextWorker s"
      "retired X = insert w (retired s)"
      "taskQueue X = taskQueue s" "nextTimer X = nextTimer s"
      "terminated s \<subseteq> terminated X"
    and D: "inv_terminated X"
    and N: "nextPromise X = nextPromise s"
    and E: "(map_of (workerTaskMap s) w = None \<and> workerTaskMap X = workerTaskMap s
              \<and> timers X = timers s \<and> settled X = settled s)
          \<or> (\<exists>h r. map_of (workerTaskMap s) w = Some h
              \<and> workerTaskMap X = AList.delete w (workerTaskMap s)
              \<and> timers X = (case timeoutId h of None \<Rightarrow> timers s
                             | Some tid \<Rightarrow> AList.delete tid (timers s))
              \<and> settled X = settled s @ [(promise h, r)])"
  shows "inv_promises X" "inv_promises (snd (spawnWorker X))"
proof -
  from I have R: "inv_registry s" by (simp add: pool_inv_def inv_core_def)
  from E have E': "(map_of (workerTaskMap s) w = None \<and> workerTaskMap X = workerTaskMap s
              \<and> timers X = timers s)
          \<or> (\<exists>h. map_of (workerTaskMap s) w = Some h
              \<and> workerTaskMap X = AList.delete w (workerTaskMap s)
              \<and> timers X = (case timeoutId h of None \<Rightarrow> timers s
                             | Some tid \<Rightarrow> AList.delete tid (timers s)))"
    by blast
  have "inv_core X"
    by (rule pool_inv_evict_spawn(2)[OF I w X D E'])
  then have RX: "inv_registry X" by (simp add: inv_core_def)
  from E show PX: "inv_promises X"
  proof (elim disjE exE conjE)
    assume "map_of (workerTaskMap s) w = None" "workerTaskMap X = workerTaskMap s"
      "settled X = settled s"
    with X N show ?thesis by (intro inv_promises_frame[OF P]) simp_all
  next
    fix h r
    assume "map_of (workerTaskMap s) w = Some h"
      "workerTaskMap X = AList.delete w (workerTaskMap s)"
      "settled X = settled s @ [(promise h, r)]"
    then show ?thesis using X N by (intro inv_promises_release[OF P R]) simp_all
  qed
  from RX PX show "inv_promises (snd (spawnWorker X))" by (rule inv_promises_spawnWorker)
qed

text \<open>
  Every event keeps \<open>inv_promises\<close>, but for a submission whose payload cannot be
  cloned: each promise created so far is in the queue, in an assignment or in the
  log of settlements, in one of them and once.
\<close>

lemma inv_promises_fire:
  assumes I: "pool_inv s" and P: "inv_promises s" and A: "admissible s e"
    and Q: "\<And>t. e = Submit t \<Longrightarrow> cloneable (payload t)"
  shows "inv_promises (fire s e)"
proof -
  from I have R: "inv_registry s" and T: "inv_timers s" and D: "inv_terminated s"
    and B: "balanced s"
    by (simp_all add: pool_inv_def inv_core_def)
  show ?thesis
  proof (cases e)
    case (Submit t)
    show ?thesis
    proof (cases "isClosing s")
      case True
      have "inv_promises (s\<lparr>nextPromise := Suc (nextPromise s),
                 settled := settled s @ [(nextPromise s, Rejected PoolClosing)]\<rparr>)"
        by (rule inv_promises_fresh[OF P]) (simp_all add: pending_def settledIds_def)
      with Submit True show ?thesis by (simp add: runTask_closing)
    next
      case False
      let ?X = "s\<lparr>nextPromise := Suc (nextPromise s),
               taskQueue := taskQueue s @ [\<lparr>task = t, item_promise = nextPromise s\<rparr>]\<rparr>"
      have RX: "inv_registry ?X"
        by (rule inv_registry_frame[OF R]) (simp_all add: retired_def)
      have PX: "inv_promises ?X"
        by (rule inv_promises_fresh[OF P]) (simp_all add: pending_def settledIds_def)
      have nt: "fst (dispatch ?X) = None"
      proof (cases "fst (dispatch ?X)")
        case None
        then show ?thesis .
      next
        case (Some x)
        from dispatch_throws[OF Some]
        have i: "idleWorkers s \<noteq> []"
          and c: "\<not> cloneable (payload (task (hd (taskQueue ?X))))"
          by simp_all
        from i B have "taskQueue s = []" by (simp add: balanced_def)
        with c Q[OF Submit] show ?thesis by simp
      qed
      from RX PX have "inv_promises (snd (dispatch ?X))" by (rule inv_promises_dispatch)
      with Submit nt show ?thesis
        by (simp add: runTask_state[OF False] Let_def)
    qed
  next
    case (Message w m)
    show ?thesis
    proof (cases "map_of (workerTaskMap s) w")
      case None
      with Message P show ?thesis by (simp add: onMessage_None)
    next
      case (Some h)
      let ?X = "(release s w h (outcome m))\<lparr>idleWorkers := idleWorkers s @ [w]\<rparr>"
      have "inv_registry ?X"
        by (rule inv_registry_complete[OF R Some]) (simp_all add: release_fields retired_def)
      moreover have "inv_promises ?X"
        by (rule inv_promises_release[OF P R Some]) (simp_all add: release_fields)
      ultimately have "inv_promises (snd (dispatch ?X))" by (rule inv_promises_dispatch)
      with Message show ?thesis by (simp add: onMessage_Some[OF Some])
    qed
  next
    case (Fault w err)
    with A have w: "w < nextWorker s" by simp
    show ?thesis
    proof (cases "map_of (workerTaskMap s) w")
      case None
      let ?X = "removeWorker (s\<lparr>erroredWorkers := insert w (erroredWorkers s)\<rparr>) w"
      have DX: "inv_terminated ?X"
        by (rule inv_terminated_frame[OF D]) (simp_all add: prim)
      have "inv_promises (snd (spawnWorker ?X))"
        by (rule inv_promises_evict_spawn(2)[OF I P w _ _ _ _ _ _ _ _ DX])
           (simp_all add: prim retired_def None)
      with Fault show ?thesis by (simp add: onError_None[OF None])
    next
      case (Some h)
      let ?X = "removeWorker
         (release (s\<lparr>erroredWorkers := insert w (erroredWorkers s)\<rparr>) w h
            (Rejected (WorkerFault err))) w"
      have DX: "inv_terminated ?X"
        by (rule inv_terminated_frame[OF D]) (simp_all add: prim release_fields)
      have "inv_promises (snd (spawnWorker ?X))"
        by (rule inv_promises_evict_spawn(2)[OF I P w _ _ _ _ _ _ _ _ DX])
           (simp_all add: prim release_fields retired_def Some split: option.splits)
      with Fault show ?thesis by (simp add: onError_Some[OF Some])
    qed
  next
    case (Exit w code)
    let ?s0 = "s\<lparr>exited := insert w (exited s)\<rparr>"
    from Exit A have w: "w < nextWorker s" and ne: "w \<notin> exited s"
      and c: "code = 0 \<Longrightarrow> w \<in> terminated s"
      by simp_all
    have removed: "inv_promises (removeWorker (?s0\<lparr>timedOutWorkers := timedOutWorkers ?s0 - {w},
                     erroredWorkers := erroredWorkers ?s0 - {w}\<rparr>) w)"
      by (rule inv_promises_frame[OF P]) (simp_all add: prim)
    show ?thesis
    proof (cases "w \<in> timedOutWorkers s \<or> w \<in> erroredWorkers s")
      case True
      have "onExit ?s0 w code =
          (None, removeWorker (?s0\<lparr>timedOutWorkers := timedOutWorkers ?s0 - {w},
                       erroredWorkers := erroredWorkers ?s0 - {w}\<rparr>) w)"
        using True by (intro onExit_attributed) simp
      with removed Exit show ?thesis by simp
    next
      case False
      show ?thesis
      proof (cases "code = 0")
        case True
        with removed Exit show ?thesis by (simp add: onExit_zero)
      next
        case nz: False
        have DX: "inv_terminated (removeWorker ?s0 w)"
          "inv_terminated (removeWorker (release ?s0 w h r) w)" for h r
          using D unfolding inv_terminated_def by (auto simp: prim release_fields)
        show ?thesis
        proof (cases "map_of (workerTaskMap s) w")
          case None
          have eq: "onExit ?s0 w code = spawnWorker (removeWorker ?s0 w)"
            using False nz None by (intro onExit_plain) simp_all
          have "inv_promises (snd (spawnWorker (removeWorker ?s0 w)))"
            by (rule inv_promises_evict_spawn(2)[OF I P w _ _ _ _ _ _ _ _ DX(1)])
               (use False in \<open>auto simp: prim retired_def None\<close>)
          with Exit eq show ?thesis by simp
        next
          case (Some h)
          with R have nc: "\<not> isClosing s" unfolding inv_registry_def by auto
          have eq: "onExit ?s0 w code =
              spawnWorker (removeWorker (release ?s0 w h (Rejected (WorkerExited code))) w)"
            using False nz nc Some by (intro onExit_busy) simp_all
          have "inv_promises (snd (spawnWorker
              (removeWorker (release ?s0 w h (Rejected (WorkerExited code))) w)))"
            by (rule inv_promises_evict_spawn(2)[OF I P w _ _ _ _ _ _ _ _ DX(2)])
               (use False in \<open>auto simp: prim release_fields retired_def Some
                   split: option.splits\<close>)
          with Exit eq show ?thesis by simp
        qed
      qed
    qed
  next
    case (TimeoutFired tid)
    show ?thesis
    proof (cases "map_of (timers s) tid")
      case None
      with TimeoutFired P show ?thesis by simp
    next
      case (Some wp)
      obtain w p where wp: "wp = (w, p)" by (cases wp)
      let ?h = "\<lparr>promise = p, timeoutId = Some tid\<rparr>"
      from T Some have h: "map_of (workerTaskMap s) w = Some ?h"
        unfolding wp by (rule inv_timers_fired)
      then have k: "w \<in> fst ` set (workerTaskMap s)" by (rule map_of_keys)
      with R have w: "w < nextWorker s" unfolding inv_registry_def by auto
      let ?X = "removeWorker
           ((clearTimeout s tid)\<lparr>workerTaskMap := AList.delete w (workerTaskMap s),
              settled := settled s @ [(p, Rejected TaskTimedOut)],
              timedOutWorkers := insert w (timedOutWorkers s),
              terminated := insert w (terminated s)\<rparr>) w"
      have h': "map_of (workerTaskMap (clearTimeout s tid)) w = Some ?h"
        using h by (simp add: prim)
      have st: "snd (timeoutCallback (clearTimeout s tid) w p) =
            snd (dispatch (snd (spawnWorker ?X)))
          \<or> snd (timeoutCallback (clearTimeout s tid) w p) = snd (spawnWorker ?X)"
        using timeoutCallback_state[OF h', of p] by (simp add: prim)
      have DX: "inv_terminated ?X"
        using D unfolding inv_terminated_def by (auto simp: prim)
      have PS: "inv_promises (snd (spawnWorker ?X))"
        by (rule inv_promises_evict_spawn(2)[OF I P w _ _ _ _ _ _ _ _ DX])
           (auto simp: prim retired_def h)
      have "pool_inv (snd (spawnWorker ?X))"
        by (rule pool_inv_evict_spawn(1)[OF I w _ _ _ _ _ _ _ _ DX])
           (auto simp: prim retired_def h)
      then have "inv_registry (snd (spawnWorker ?X))"
        by (simp add: pool_inv_def inv_core_def)
      from this PS have "inv_promises (snd (dispatch (snd (spawnWorker ?X))))"
        by (rule inv_promises_dispatch)
      with PS st have "inv_promises (snd (timeoutCallback (clearTimeout s tid) w p))"
        by auto
      with TimeoutFired Some wp show ?thesis by simp
    qed
  next
    case Close
    with P show ?thesis by (simp add: inv_promises_close)
  qed
qed

lemma inv_promises_new: "inv_promises (new_AsyncJson n tmo)"
proof -
  let ?e = "\<lparr>numThreads = n, taskTimeoutMs = tmo, workers = [], idleWorkers = [],
        taskQueue = [], workerTaskMap = [], isClosing = False,
        timedOutWorkers = {}, erroredWorkers = {},
        nextWorker = 0, nextPromise = 0, nextTimer = 0, timers = [],
        settled = [], posted = [], terminated = {}, exited = {}\<rparr>"
  have loop: "pool_inv s \<Longrightarrow> inv_promises s \<Longrightarrow> inv_promises (snd (initWorkers_loop k s))"
    for k s
  proof (induction k arbitrary: s)
    case 0
    then show ?case by simp
  next
    case (Suc k)
    obtain r s1 where sp: "spawnWorker s = (r, s1)" by (cases "spawnWorker s")
    then have s1: "s1 = snd (spawnWorker s)" by simp
    from Suc.prems have "inv_core s1" "balanced s1"
      unfolding s1
      by (simp_all add: pool_inv_def inv_core_spawnWorker balanced_spawnWorker)
    then have I1: "pool_inv s1" by (simp add: pool_inv_def)
    from Suc.prems have P1: "inv_promises s1"
      unfolding s1 by (intro inv_promises_spawnWorker) (simp_all add: pool_inv_def inv_core_def)
    show ?case
    proof (cases r)
      case None
      with sp Suc.IH[OF I1 P1] show ?thesis by simp
    next
      case (Some e)
      with sp P1 show ?thesis by simp
    qed
  qed
  have "pool_inv ?e" "inv_promises ?e"
    by (simp_all add: pool_inv_def inv_core_def inv_registry_def retired_def inv_timers_def
        inv_closing_def inv_terminated_def balanced_def inv_promises_def pending_def
        settledIds_def)
  then show ?thesis
    unfolding new_AsyncJson_def initWorkers_def using loop[of ?e n] by simp
qed

lemma promises_once_if_cloneable:
  assumes "reaches_cloneable (new_AsyncJson n tmo) s"
  shows "distinct (pending s @ settledIds s)"
    and "set (pending s) \<union> set (settledIds s) = {..<nextPromise s}"
proof -
  have "reaches_cloneable s0 s \<Longrightarrow> pool_inv s0 \<and> inv_promises s0 \<Longrightarrow>
      pool_inv s \<and> inv_promises s" for s0
  proof (induction rule: reaches_cloneable.induct)
    case (here s)
    then show ?case .
  next
    case (later s s' e)
    then have I: "pool_inv s'" and P: "inv_promises s'" by simp_all
    from later.hyps(3) have "cloneable (payload t)" if "e = Submit t" for t
      using that by simp
    with I P later.hyps(2) have "inv_promises (fire s' e)" by (intro inv_promises_fire)
    with I later.hyps(2) show ?case by (simp add: pool_inv_fire)
  qed
  from this[OF assms] have "inv_promises s"
    by (simp add: pool_inv_new inv_promises_new)
  then show "distinct (pending s @ settledIds s)"
    and "set (pending s) \<union> set (settledIds s) = {..<nextPromise s}"
    by (simp_all add: inv_promises_def)
qed

lemma dispatch_throws_iff:
  "fst (dispatch s) \<noteq> None \<longleftrightarrow>
     \<not> isClosing s \<and> taskQueue s \<noteq> [] \<and> idleWorkers s \<noteq> []
     \<and> \<not> cloneable (payload (task (hd (taskQueue s))))"
  by (cases s rule: dispatch_cases) auto

lemma assign_front_dispatch:
  assumes "\<not> isClosing s" "taskQueue s = item # q" "idleWorkers s = w # ws"
    "fst (dispatch s) = None"
  shows "assign_front s = snd (dispatch s)"
proof -
  from assms(4) dispatch_assign(2)[OF assms(1,2,3)]
  have c: "cloneable (payload (task item))" by (simp split: if_splits)
  show ?thesis
    unfolding dispatch_assign(1)[OF assms(1,2,3)]
    using assms(2,3) c by (simp add: assign_front_def)
qed

lemma dispatch_spec_stop:
  "isClosing s \<or> taskQueue s = [] \<or> idleWorkers s = [] \<Longrightarrow> dispatch_spec s = s"
  by (subst dispatch_spec.simps) simp

text \<open>
  Where at most one task is queued or at most one worker is idle, and the send does
  not throw, \<open>dispatch\<close> returns what the loop of the specification computes, and
  leaves no queued task together with an idle worker. The class calls \<open>dispatch\<close>
  only in such states: \<open>dispatch_call_sites\<close>.
\<close>

lemma dispatch_spec_refined:
  assumes "nearly_balanced s" "fst (dispatch s) = None"
  shows "dispatch s = (None, dispatch_spec s)"
proof (cases s rule: dispatch_cases)
  case noop
  then show ?thesis by (simp add: dispatch_spec_stop)
next
  case (assign item q w ws)
  from assms(1) assign(2,3) have "q = [] \<or> ws = []" by (auto simp: nearly_balanced_def)
  then have stop: "dispatch_spec (snd (dispatch s)) = snd (dispatch s)"
    by (intro dispatch_spec_stop) (auto simp: assign(4))
  from assign(1,2,3) have "dispatch_spec s = dispatch_spec (assign_front s)"
    by (subst dispatch_spec.simps) simp
  also have "assign_front s = snd (dispatch s)"
    using assign(1,2,3) assms(2) by (rule assign_front_dispatch)
  finally have "snd (dispatch s) = dispatch_spec s" using stop by simp
  with assms(2) show ?thesis by (simp add: prod_eq_iff)
qed

lemma dispatch_leaves_balanced:
  assumes "nearly_balanced s" "\<not> isClosing s"
  shows "taskQueue (snd (dispatch s)) = [] \<or> idleWorkers (snd (dispatch s)) = []"
  using balanced_dispatch[of s] assms by (simp add: nearly_balanced_def balanced_def)

lemma reachable_balanced: "reachable s \<Longrightarrow> taskQueue s = [] \<or> idleWorkers s = []"
  using reachable_pool_inv[of s] by (simp add: pool_inv_def balanced_def)

lemma dispatch_call_sites:
  assumes "balanced s"
  shows "\<not> isClosing s \<Longrightarrow>
           nearly_balanced (s\<lparr>nextPromise := Suc (nextPromise s),
              taskQueue := taskQueue s @ [\<lparr>task = t, item_promise = nextPromise s\<rparr>]\<rparr>)"
    and "nearly_balanced ((release s w h r)\<lparr>idleWorkers := idleWorkers s @ [w]\<rparr>)"
    and "nearly_balanced (s\<lparr>nextWorker := Suc (nextWorker s),
              workers := workers s @ [nextWorker s],
              idleWorkers := idleWorkers s @ [nextWorker s]\<rparr>)"
    and "balanced (removeWorker s w)"
    and "nearly_balanced (snd (replaceWorker s w))"
proof -
  show "balanced (removeWorker s w)"
    using assms by (auto simp: balanced_def removeWorker_def)
  then have "balanced (snd (replaceWorker s w))"
    unfolding replaceWorker_def by (rule balanced_spawnWorker)
  then show "nearly_balanced (snd (replaceWorker s w))"
    by (auto simp: balanced_def nearly_balanced_def)
qed (use assms in \<open>auto simp: balanced_def nearly_balanced_def release_fields\<close>)

text \<open>
  Where two tasks are queued and two workers idle, \<open>dispatch\<close> assigns one task and
  the loop of the specification both.
\<close>

lemma dispatch_once_on_crowded:
  "\<not> nearly_balanced crowded2
   \<and> taskQueue (snd (dispatch crowded2)) = [\<lparr>task = parse_task, item_promise = 1\<rparr>]
   \<and> idleWorkers (snd (dispatch crowded2)) = [1]
   \<and> taskQueue (dispatch_spec crowded2) = []
   \<and> idleWorkers (dispatch_spec crowded2) = []"
proof -
  have c: "crowded2 = \<lparr>numThreads = 2, taskTimeoutMs = None, workers = [0, 1],
     idleWorkers = [0, 1],
     taskQueue = [\<lparr>task = parse_task, item_promise = 0\<rparr>,
                  \<lparr>task = parse_task, item_promise = 1\<rparr>],
     workerTaskMap = [], isClosing = False, timedOutWorkers = {}, erroredWorkers = {},
     nextWorker = 2, nextPromise = 2, nextTimer = 0, timers = [],
     settled = [], posted = [], terminated = {}, exited = {}\<rparr>"
    by (simp add: crowded2_def new_AsyncJson_def initWorkers_def spawnWorker_def
        createWorker_def dispatch_def eval_nat_numeral)
  show ?thesis
    unfolding c
    by (simp add: nearly_balanced_def dispatch_def dispatch_spec.simps assign_front_def
        postMessage_def parse_task_def)
qed

lemma wedged_forever1_eq:
  "wedged_forever1 =
     \<lparr>numThreads = 1, taskTimeoutMs = None, workers = [0], idleWorkers = [],
      taskQueue = [\<lparr>task = \<lparr>type = Parse, payload = Plain ''{}''\<rparr>, item_promise = 1\<rparr>],
      workerTaskMap = [(0, \<lparr>promise = 0, timeoutId = None\<rparr>)],
      isClosing = False, timedOutWorkers = {}, erroredWorkers = {},
      nextWorker = 1, nextPromise = 2, nextTimer = 0, timers = [],
      settled = [(0, Rejected (Thrown DataCloneError))], posted = [],
      terminated = {}, exited = {}\<rparr>"
  by (simp add: wedged_forever1_def parse_def stringify_def new_AsyncJson_def initWorkers_def
      spawnWorker_def createWorker_def runTask_def Let_def dispatch_def prim)

section \<open>The claims\<close>


text \<open>
  C2 (as amended). The \<open>error\<close> handler marks the worker as errored and creates
  exactly one worker when the pool is not closing, and none when it is closing. The
  mark stays until the worker's own \<open>exit\<close> event. The \<open>exit\<close> handler, for a
  worker marked as errored or timed out, only clears the marks and removes the worker
  from \<open>workers\<close> and \<open>idleWorkers\<close>: it settles nothing and creates no worker. So
  a fault followed by the exit of the same worker creates one worker in all when the
  pool is not closing, and for a registered worker of a reachable pool the number of
  workers is then what it was before the fault.
\<close>

theorem fault_then_exit_replaces_once:
  "nextWorker (snd (onError s w err)) = (if isClosing s then nextWorker s else Suc (nextWorker s))
   \<and> w \<in> erroredWorkers (snd (onError s w err))
   \<and> ((\<forall>c. e \<noteq> Exit w c) \<and> w \<in> erroredWorkers s' \<longrightarrow> w \<in> erroredWorkers (fire s' e))
   \<and> (w \<in> erroredWorkers s' \<or> w \<in> timedOutWorkers s' \<longrightarrow>
        onExit s' w code =
          (None, removeWorker (s'\<lparr>timedOutWorkers := timedOutWorkers s' - {w},
                           erroredWorkers := erroredWorkers s' - {w}\<rparr>) w)
        \<and> nextWorker (snd (onExit s' w code)) = nextWorker s'
        \<and> settled (snd (onExit s' w code)) = settled s')
   \<and> nextWorker (snd (onExit (snd (onError s w err)) w code)) =
        (if isClosing s then nextWorker s else Suc (nextWorker s))
   \<and> settled (snd (onExit (snd (onError s w err)) w code)) = settled (snd (onError s w err))
   \<and> (reachable s \<and> w \<in> set (workers s) \<and> \<not> isClosing s \<longrightarrow>
        length (workers (fire (fire s (Fault w err)) (Exit w code))) = length (workers s)
        \<and> w \<notin> set (workers (fire (fire s (Fault w err)) (Exit w code))))"
proof -
  have att: "onExit s' w code =
          (None, removeWorker (s'\<lparr>timedOutWorkers := timedOutWorkers s' - {w},
                           erroredWorkers := erroredWorkers s' - {w}\<rparr>) w)
        \<and> nextWorker (snd (onExit s' w code)) = nextWorker s'
        \<and> settled (snd (onExit s' w code)) = settled s'"
    if "w \<in> erroredWorkers s' \<or> w \<in> timedOutWorkers s'" for s'
    using that onExit_attributed[of w s' code] by (auto simp: removeWorker_def)
  have e: "w \<in> erroredWorkers (snd (onError s w err))" by (rule onError_spawns)
  have x: "workers (snd (onExit (snd (onError s w err)) w code)) =
      filter (\<lambda>y. y \<noteq> w) (workers (snd (onError s w err)))"
    using att[of "snd (onError s w err)"] e by (simp add: removeWorker_def)
  have cnt: "length (workers (fire (fire s (Fault w err)) (Exit w code))) = length (workers s)
        \<and> w \<notin> set (workers (fire (fire s (Fault w err)) (Exit w code)))"
    if "reachable s \<and> w \<in> set (workers s) \<and> \<not> isClosing s"
  proof -
    from that have I: "pool_inv s" by (simp add: reachable_pool_inv)
    have e': "w \<in> erroredWorkers (snd (onError s w err)\<lparr>exited := insert w (exited (snd (onError s w err)))\<rparr>)"
      using e by simp
    from that have A: "w \<in> set (workers s)" and nc: "\<not> isClosing s" by simp_all
    from onError_count[OF I A nc] att[OF disjI1, OF e'] show ?thesis
      by (simp add: removeWorker_def filter_absent)
  qed
  have keep: "w \<in> erroredWorkers (fire s' e)"
    if "(\<forall>c. e \<noteq> Exit w c) \<and> w \<in> erroredWorkers s'"
    using that attribution_kept(1)[of e w s'] by simp
  have a1: "nextWorker (snd (onExit (snd (onError s w err)) w code)) =
        (if isClosing s then nextWorker s else Suc (nextWorker s))"
    and a2: "settled (snd (onExit (snd (onError s w err)) w code)) = settled (snd (onError s w err))"
  proof -
    from att[of "snd (onError s w err)"] e
    have "nextWorker (snd (onExit (snd (onError s w err)) w code)) = nextWorker (snd (onError s w err))"
      and "settled (snd (onExit (snd (onError s w err)) w code)) = settled (snd (onError s w err))"
      by blast+
    then show "nextWorker (snd (onExit (snd (onError s w err)) w code)) =
        (if isClosing s then nextWorker s else Suc (nextWorker s))"
      and "settled (snd (onExit (snd (onError s w err)) w code)) = settled (snd (onError s w err))"
      by (simp_all only: onError_spawns(1))
  qed
  have keep': "(\<forall>c. e \<noteq> Exit w c) \<and> w \<in> erroredWorkers s' \<longrightarrow>
      w \<in> erroredWorkers (fire s' e)"
    using keep by blast
  have att': "w \<in> erroredWorkers s' \<or> w \<in> timedOutWorkers s' \<longrightarrow>
        onExit s' w code =
          (None, removeWorker (s'\<lparr>timedOutWorkers := timedOutWorkers s' - {w},
                           erroredWorkers := erroredWorkers s' - {w}\<rparr>) w)
        \<and> nextWorker (snd (onExit s' w code)) = nextWorker s'
        \<and> settled (snd (onExit s' w code)) = settled s'"
    using att[of s'] by blast
  have cnt': "reachable s \<and> w \<in> set (workers s) \<and> \<not> isClosing s \<longrightarrow>
        length (workers (fire (fire s (Fault w err)) (Exit w code))) = length (workers s)
        \<and> w \<notin> set (workers (fire (fire s (Fault w err)) (Exit w code)))"
    using cnt by blast
  show ?thesis
    using onError_spawns(1)[of s w err] e keep' att' a1 a2 cnt'
    by (intro conjI) assumption+
qed

theorem fault_then_exit_replaces_once_witness:
  "0 \<in> set (workers busy1) \<and> reachable busy1 \<and> \<not> isClosing busy1
   \<and> nextWorker (snd (onError busy1 0 ''boom'')) = 2
   \<and> 0 \<in> erroredWorkers (snd (onError busy1 0 ''boom''))
   \<and> 0 \<in> erroredWorkers (fire (snd (onError busy1 0 ''boom'')) (Submit parse_task))
   \<and> nextWorker (snd (onExit (snd (onError busy1 0 ''boom'')) 0 1)) = 2
   \<and> settled (snd (onExit (snd (onError busy1 0 ''boom'')) 0 1)) = settled (snd (onError busy1 0 ''boom''))
   \<and> length (workers (fire (fire busy1 (Fault 0 ''boom'')) (Exit 0 1))) = 1"
  using fault_then_exit_replaces_once[of busy1 0 "''boom''" "Submit parse_task"
      "snd (onError busy1 0 ''boom'')" 1]
    reachable_busy1
  by (simp add: busy1_eq onError_def onExit_def Let_def replaceWorker_def spawnWorker_def
      dispatch_def runTask_def prim)

text \<open>
  C2, as stated, fails on a pool that is closing: \<open>close()\<close> was called while worker 0
  was busy, then worker 0 raises \<open>error\<close> and exits with code 1. No worker is created
  (the counter of created workers stays at 1 and \<open>workers\<close> ends empty), where the
  claim promises exactly one replacement.
\<close>

theorem fault_while_closing_spawns_nothing:
  "reachable closing1
   \<and> admissible closing1 (Fault 0 ''boom'')
   \<and> admissible (fire closing1 (Fault 0 ''boom'')) (Exit 0 1)
   \<and> nextWorker faulted_closing1 = nextWorker closing1
   \<and> nextWorker faulted_closing1 \<noteq> Suc (nextWorker closing1)
   \<and> workers faulted_closing1 = []"
  using reachable_closing1
  by (simp add: faulted_closing1_eq closed1_eq closing1_eq onError_def Let_def
      replaceWorker_def spawnWorker_def prim)




text \<open>
  C4. From any reachable state, \<open>close()\<close> sets the closing flag, rejects the promise
  of every queued task and then of every assigned task with the pool-closing error
  (nothing else is settled), leaves the queue and \<open>workerTaskMap\<close> empty and no timer
  pending, and calls \<open>terminate()\<close> on every worker. When the promise it returns
  resolves, that is when every one of these workers has emitted \<open>exit\<close>, whatever
  else happened meanwhile, \<open>stats()\<close> is \<open>(0, 0, 0)\<close>.
\<close>

theorem close_drains_the_pool:
  assumes "reachable s"
  shows "isClosing (close s)
       \<and> taskQueue (close s) = []
       \<and> workerTaskMap (close s) = []
       \<and> timers (close s) = []
       \<and> settled (close s) =
            settled s
            @ map (\<lambda>i. (item_promise i, Rejected PoolClosing)) (taskQueue s)
            @ map (\<lambda>e. (promise (snd e), Rejected PoolClosing)) (workerTaskMap s)
       \<and> set (workers s) \<subseteq> terminated (close s)
       \<and> workers (close s) = workers s
       \<and> (reaches (close s) s' \<and> close_resolved (close s) s' \<longrightarrow> stats s' = (0, 0, 0))"
proof -
  from assms have I: "pool_inv s" by (rule reachable_pool_inv)
  then have T: "inv_timers s" by (simp add: pool_inv_def inv_core_def)
  have st: "reaches (close s) s' \<and> close_resolved (close s) s' \<longrightarrow> stats s' = (0, 0, 0)"
  proof (intro impI, elim conjE)
    assume r: "reaches (close s) s'" and fin: "close_resolved (close s) s'"
    from I have "pool_inv (close s)" by (rule pool_inv_close)
    with r have I': "pool_inv s'" by (rule reaches_pool_inv)
    from reaches_closing[OF r close_closing]
    have c: "isClosing s'" and sub: "set (workers s') \<subseteq> set (workers (close s))"
      by simp_all
    from fin sub have ex: "set (workers s') \<subseteq> exited s'"
      by (auto simp: close_resolved_def)
    from I' have R': "inv_registry s'" by (simp add: pool_inv_def inv_core_def)
    have dj: "set (workers s') \<inter> retired s' = {}"
      and il: "set (idleWorkers s') \<subseteq> set (workers s')"
      by (rule inv_registryD(1)[OF R'], rule inv_registryD(2)[OF R'])
    have "x \<notin> set (workers s')" for x
    proof
      assume x: "x \<in> set (workers s')"
      with ex have "x \<in> retired s'" by (auto simp: retired_def)
      with x dj show False by auto
    qed
    then have w0: "workers s' = []" by (cases "workers s'") auto
    with il have "idleWorkers s' = []" by simp
    note w0 this
    moreover from I' c have "taskQueue s' = []"
      by (simp add: pool_inv_def inv_core_def inv_closing_def)
    ultimately show "stats s' = (0, 0, 0)" by (simp add: stats_def)
  qed
  have c: "isClosing (close s)" "taskQueue (close s) = []" "workerTaskMap (close s) = []"
    "settled (close s) =
            settled s
            @ map (\<lambda>i. (item_promise i, Rejected PoolClosing)) (taskQueue s)
            @ map (\<lambda>e. (promise (snd e), Rejected PoolClosing)) (workerTaskMap s)"
    "set (workers s) \<subseteq> terminated (close s)" "workers (close s) = workers s"
    by (simp_all add: close_eq)
  show ?thesis
    using c(1,2,3) inv_timers_close[OF T] c(4,5,6) st
    by (intro conjI) assumption+
qed

theorem close_drains_the_pool_witness:
  "reachable queued1
   \<and> reaches (close queued1) drained1
   \<and> close_resolved (close queued1) drained1
   \<and> settled (close queued1) = [(1, Rejected PoolClosing), (0, Rejected PoolClosing)]
   \<and> timers (close queued1) = []
   \<and> terminated (close queued1) = {0}
   \<and> stats drained1 = (0, 0, 0)"
proof -
  have r: "reaches (close queued1) drained1"
    unfolding drained1_def
    by (rule reaches.later[OF reaches.here]) (simp add: queued1_eq close_eq)
  have d: "close_resolved (close queued1) drained1"
    by (simp add: close_resolved_def drained1_eq queued1_eq close_eq)
  have q: "settled queued1
            @ map (\<lambda>i. (item_promise i, Rejected PoolClosing)) (taskQueue queued1)
            @ map (\<lambda>e. (promise (snd e), Rejected PoolClosing)) (workerTaskMap queued1)
          = [(1, Rejected PoolClosing), (0, Rejected PoolClosing)]"
    and t: "terminated (close queued1) = {0}"
    by (simp_all add: queued1_eq close_eq)
  note T = close_drains_the_pool[OF reachable_queued1, of drained1]
  from T have s: "settled (close queued1) =
            settled queued1
            @ map (\<lambda>i. (item_promise i, Rejected PoolClosing)) (taskQueue queued1)
            @ map (\<lambda>e. (promise (snd e), Rejected PoolClosing)) (workerTaskMap queued1)"
    and tm: "timers (close queued1) = []"
    by - (elim conjE, assumption)+
  from T r d have st: "stats drained1 = (0, 0, 0)"
    by (elim conjE impE) (intro conjI)
  show ?thesis
    using reachable_queued1 r d s[unfolded q] tm t st
    by (intro conjI) assumption+
qed

text \<open>
  C5. \<open>stringify(() => 1)\<close> on a fresh pool of one worker: \<open>runTask\<close> appends the
  task and calls \<open>dispatch\<close> in the state \<open>enqueued_fn1\<close>. \<open>dispatch\<close> removes the
  task from the queue and worker 0 from the idle list, starts the timer and records
  the assignment, and then throws: no message is posted for the task it dispatched,
  where the loop of the specification sends one, and \<open>dispatch\<close> does not return.
  Worker 0 stays assigned to a task it never received. Without a timeout it stays so
  for good: a \<open>parse\<close> submitted afterwards waits in the queue of a pool whose only
  worker has nothing to do.
\<close>

theorem dispatch_uncloneable_sends_nothing:
  "nearly_balanced enqueued_fn1
   \<and> runTask pool1 fn_task =
       (0, settle (snd (dispatch enqueued_fn1)) 0 (Rejected (Thrown DataCloneError)))
   \<and> dispatch enqueued_fn1 =
       (Some DataCloneError,
        enqueued_fn1\<lparr>taskQueue := [], idleWorkers := [],
          timers := [(0, 0, 0)], nextTimer := 1,
          workerTaskMap := [(0, \<lparr>promise = 0, timeoutId = Some 0\<rparr>)]\<rparr>)
   \<and> posted (snd (dispatch enqueued_fn1)) = []
   \<and> posted (dispatch_spec enqueued_fn1) = [(0, fn_task)]
   \<and> workerTaskMap wedged_forever1 = [(0, \<lparr>promise = 0, timeoutId = None\<rparr>)]
   \<and> idleWorkers wedged_forever1 = []
   \<and> length (taskQueue wedged_forever1) = 1
   \<and> timers wedged_forever1 = []
   \<and> posted wedged_forever1 = []"
proof -
  have d: "dispatch enqueued_fn1 =
       (Some DataCloneError,
        enqueued_fn1\<lparr>taskQueue := [], idleWorkers := [],
          timers := [(0, 0, 0)], nextTimer := 1,
          workerTaskMap := [(0, \<lparr>promise = 0, timeoutId = Some 0\<rparr>)]\<rparr>)"
    unfolding enqueued_fn1_eq by (simp add: dispatch_def Let_def prim fn_task_def)
  have r: "runTask pool1 fn_task =
       (0, settle (snd (dispatch enqueued_fn1)) 0 (Rejected (Thrown DataCloneError)))"
    unfolding d unfolding enqueued_fn1_eq pool1_eq
    by (simp add: runTask_def Let_def dispatch_def prim fn_task_def)
  have sp: "posted (dispatch_spec enqueued_fn1) = [(0, fn_task)]"
    unfolding enqueued_fn1_eq
    by (simp add: dispatch_spec.simps assign_front_def)
  have nb: "nearly_balanced enqueued_fn1"
    by (simp add: enqueued_fn1_eq nearly_balanced_def)
  have p: "posted (snd (dispatch enqueued_fn1)) = []"
    unfolding d by (simp add: enqueued_fn1_eq)
  have w: "workerTaskMap wedged_forever1 = [(0, \<lparr>promise = 0, timeoutId = None\<rparr>)]"
    "idleWorkers wedged_forever1 = []" "length (taskQueue wedged_forever1) = 1"
    "timers wedged_forever1 = []" "posted wedged_forever1 = []"
    by (simp_all add: wedged_forever1_eq)
  show ?thesis
    using nb r d p sp w by (intro conjI) assumption+
qed

text \<open>
  C6. A timeout callback that finds no assignment for its worker returns the state
  unchanged. In a reachable state, a pending timer always belongs to the current
  assignment of its worker, and the pool is not closing. When it fires, the promise
  of that assignment is rejected with the timeout error (and nothing else is
  settled), the worker is marked as timed out, terminated and removed, one new worker
  is created in its place, and \<open>dispatch\<close> runs again; should the \<open>dispatch\<close>
  inside the replacement throw, the callback ends there, in the state the second
  \<open>dispatch\<close> would have left as it is. The \<open>exit\<close> event of the worker, whenever it
  arrives, settles nothing, creates no worker and leaves \<open>workers\<close> as it is.
\<close>

theorem timeout_replaces_worker_once:
  assumes "reachable s" "map_of (timers s) tid = Some (w, p)"
  shows "(map_of (workerTaskMap s') w' = None \<longrightarrow> timeoutCallback s' w' p' = (None, s'))
       \<and> map_of (workerTaskMap s) w = Some \<lparr>promise = p, timeoutId = Some tid\<rparr>
       \<and> \<not> isClosing s
       \<and> timeoutCallback (clearTimeout s tid) w p =
            (case replaceWorker
                    (terminate
                      ((settle ((clearTimeout s tid)
                                  \<lparr>workerTaskMap := AList.delete w (workerTaskMap s)\<rparr>)
                          p (Rejected TaskTimedOut))
                         \<lparr>timedOutWorkers := insert w (timedOutWorkers s)\<rparr>) w) w of
               (None, s5) \<Rightarrow> dispatch s5
             | (Some e, s5) \<Rightarrow> (Some e, s5))
       \<and> fire s (TimeoutFired tid) =
            snd (dispatch (snd (replaceWorker
              (terminate
                ((settle ((clearTimeout s tid)
                            \<lparr>workerTaskMap := AList.delete w (workerTaskMap s)\<rparr>)
                    p (Rejected TaskTimedOut))
                   \<lparr>timedOutWorkers := insert w (timedOutWorkers s)\<rparr>) w) w)))
       \<and> settled (fire s (TimeoutFired tid)) = settled s @ [(p, Rejected TaskTimedOut)]
       \<and> w \<in> timedOutWorkers (fire s (TimeoutFired tid))
       \<and> w \<in> terminated (fire s (TimeoutFired tid))
       \<and> workers (fire s (TimeoutFired tid)) =
            filter (\<lambda>y. y \<noteq> w) (workers s) @ [nextWorker s]
       \<and> w \<noteq> nextWorker s
       \<and> length (workers (fire s (TimeoutFired tid))) = length (workers s)
       \<and> nextWorker (fire s (TimeoutFired tid)) = Suc (nextWorker s)
       \<and> ((\<forall>c. e \<noteq> Exit w c) \<and> w \<in> timedOutWorkers s' \<longrightarrow>
            w \<in> timedOutWorkers (fire s' e))
       \<and> (w \<in> timedOutWorkers s' \<longrightarrow>
            settled (fire s' (Exit w code)) = settled s'
            \<and> nextWorker (fire s' (Exit w code)) = nextWorker s'
            \<and> workers (fire s' (Exit w code)) = filter (\<lambda>y. y \<noteq> w) (workers s'))
       \<and> settled (fire (fire s (TimeoutFired tid)) (Exit w code)) =
            settled (fire s (TimeoutFired tid))
       \<and> nextWorker (fire (fire s (TimeoutFired tid)) (Exit w code)) =
            nextWorker (fire s (TimeoutFired tid))
       \<and> workers (fire (fire s (TimeoutFired tid)) (Exit w code)) =
            workers (fire s (TimeoutFired tid))"
proof -
  let ?s1 = "fire s (TimeoutFired tid)"
  let ?h = "\<lparr>promise = p, timeoutId = Some tid\<rparr>"
  let ?S4 = "terminate
                ((settle ((clearTimeout s tid)
                            \<lparr>workerTaskMap := AList.delete w (workerTaskMap s)\<rparr>)
                    p (Rejected TaskTimedOut))
                   \<lparr>timedOutWorkers := insert w (timedOutWorkers s)\<rparr>) w"
  from assms(1) have I: "pool_inv s" by (rule reachable_pool_inv)
  then have R: "inv_registry s" and T: "inv_timers s" and B: "balanced s"
    by (simp_all add: pool_inv_def inv_core_def)
  from T assms(2) have h: "map_of (workerTaskMap s) w = Some ?h" by (rule inv_timers_fired)
  then have h': "map_of (workerTaskMap (clearTimeout s tid)) w = Some ?h"
    by (simp add: prim)
  from h have k: "w \<in> fst ` set (workerTaskMap s)" by (rule map_of_keys)
  with R have nc: "\<not> isClosing s" and win: "w \<in> set (workers s)"
    unfolding inv_registry_def by auto
  from R win have fresh: "w \<noteq> nextWorker s" unfolding inv_registry_def by auto
  from R have d: "distinct (workers s)" by (simp add: inv_registry_def)
  have len: "Suc (length (filter (\<lambda>y. y \<noteq> w) (workers s))) = length (workers s)"
    using d win by (rule length_filter_remove)
  have fi: "?s1 = snd (timeoutCallback (clearTimeout s tid) w p)"
    using assms(2) by simp
  have cf: "timeoutCallback (clearTimeout s tid) w p =
            (case replaceWorker ?S4 w of
               (None, s5) \<Rightarrow> dispatch s5
             | (Some e, s5) \<Rightarrow> (Some e, s5))"
    using h by (simp add: timeoutCallback_def Let_def prim)
  have "balanced (removeWorker ?S4 w)"
    by (rule balanced_shrink[OF B]) (simp_all add: prim)
  then have "balanced (snd (replaceWorker ?S4 w))"
    unfolding replaceWorker_def by (rule balanced_spawnWorker)
  then have nd: "dispatch (snd (replaceWorker ?S4 w)) = (None, snd (replaceWorker ?S4 w))"
    by (rule dispatch_balanced)
  have "snd (timeoutCallback (clearTimeout s tid) w p) = snd (replaceWorker ?S4 w)"
  proof -
    obtain r s5 where rw: "replaceWorker ?S4 w = (r, s5)"
      by (cases "replaceWorker ?S4 w")
    with nd have "dispatch s5 = (None, s5)" by simp
    then show ?thesis unfolding cf rw by (cases r) simp_all
  qed
  with fi nd have eq: "?s1 = snd (dispatch (snd (replaceWorker ?S4 w)))"
    by simp
  have f: "settled ?s1 = settled s @ [(p, Rejected TaskTimedOut)]"
    "w \<in> timedOutWorkers ?s1" "w \<in> terminated ?s1"
    "workers ?s1 = filter (\<lambda>y. y \<noteq> w) (workers s) @ [nextWorker s]"
    "nextWorker ?s1 = Suc (nextWorker s)"
    unfolding fi using nc timeoutCallback_frame[OF h', of p]
    by (simp_all add: prim)
  have ex: "settled (fire s' (Exit w code)) = settled s'
            \<and> nextWorker (fire s' (Exit w code)) = nextWorker s'
            \<and> workers (fire s' (Exit w code)) = filter (\<lambda>y. y \<noteq> w) (workers s')"
    if "w \<in> timedOutWorkers s'" for s'
    using that onExit_attributed[of w "s'\<lparr>exited := insert w (exited s')\<rparr>" code]
    by (simp add: removeWorker_def)
  have a: "map_of (workerTaskMap s') w' = None \<longrightarrow> timeoutCallback s' w' p' = (None, s')"
    by (simp add: timeoutCallback_None)
  have keep: "(\<forall>c. e \<noteq> Exit w c) \<and> w \<in> timedOutWorkers s' \<longrightarrow>
            w \<in> timedOutWorkers (fire s' e)"
    using attribution_kept(2)[of e w s'] by blast
  have ex': "w \<in> timedOutWorkers s' \<longrightarrow>
            settled (fire s' (Exit w code)) = settled s'
            \<and> nextWorker (fire s' (Exit w code)) = nextWorker s'
            \<and> workers (fire s' (Exit w code)) = filter (\<lambda>y. y \<noteq> w) (workers s')"
    using ex[of s'] by blast
  have l: "length (workers ?s1) = length (workers s)"
    unfolding f(4) using len by simp
  have "filter (\<lambda>y. y \<noteq> w) (workers ?s1) = workers ?s1"
    unfolding f(4) using fresh by simp
  with ex[OF f(2)] have wk: "workers (fire ?s1 (Exit w code)) = workers ?s1"
    by (simp only:)
  from ex[OF f(2)] have e1: "settled (fire ?s1 (Exit w code)) = settled ?s1"
    and e2: "nextWorker (fire ?s1 (Exit w code)) = nextWorker ?s1"
    by blast+
  show ?thesis
    using a h nc cf eq f(1,2,3,4) fresh l f(5) keep ex' e1 e2 wk
    by (intro conjI) assumption+
qed

theorem timeout_replaces_worker_once_witness:
  "reachable busy1 \<and> map_of (timers busy1) 0 = Some (0, 0)
   \<and> map_of (workerTaskMap busy1) 0 = Some \<lparr>promise = 0, timeoutId = Some 0\<rparr>
   \<and> settled timedout1 = settled busy1 @ [(0, Rejected TaskTimedOut)]
   \<and> workers timedout1 = filter (\<lambda>y. y \<noteq> 0) (workers busy1) @ [nextWorker busy1]
   \<and> nextWorker timedout1 = Suc (nextWorker busy1)
   \<and> settled (fire timedout1 (Exit 0 1)) = settled timedout1
   \<and> nextWorker (fire timedout1 (Exit 0 1)) = nextWorker timedout1
   \<and> workers (fire timedout1 (Exit 0 1)) = workers timedout1
   \<and> settled timedout1 = [(0, Rejected TaskTimedOut)]
   \<and> workers timedout1 = [1]"
proof -
  have t: "map_of (timers busy1) 0 = Some (0, 0)" by (simp add: busy1_eq)
  note T = timeout_replaces_worker_once[OF reachable_busy1 t, of timedout1 0 0 Close 1,
      folded timedout1_def]
  from T have a: "map_of (workerTaskMap busy1) 0 = Some \<lparr>promise = 0, timeoutId = Some 0\<rparr>"
    "settled timedout1 = settled busy1 @ [(0, Rejected TaskTimedOut)]"
    "workers timedout1 = filter (\<lambda>y. y \<noteq> 0) (workers busy1) @ [nextWorker busy1]"
    "nextWorker timedout1 = Suc (nextWorker busy1)"
    "settled (fire timedout1 (Exit 0 1)) = settled timedout1"
    "nextWorker (fire timedout1 (Exit 0 1)) = nextWorker timedout1"
    "workers (fire timedout1 (Exit 0 1)) = workers timedout1"
    by - (elim conjE, assumption)+
  have v: "settled timedout1 = [(0, Rejected TaskTimedOut)]" "workers timedout1 = [1]"
    by (simp_all add: timedout1_eq)
  show ?thesis
    using reachable_busy1 t a v
    by (intro conjI) assumption+
qed

text \<open>
  C7. While the pool is closing, and in every state that follows a call of \<open>close\<close>,
  \<open>runTask\<close> (and so \<open>parse\<close> and \<open>stringify\<close>) returns a promise that is rejected
  at once with the pool-closing error. Nothing else changes: the task is not queued,
  no message is posted, no worker, assignment or timer is touched.
\<close>

theorem submit_while_closing_rejected:
  assumes "isClosing s \<or> s = foldl fire (close s0) es"
  shows "runTask s t =
           (nextPromise s,
            s\<lparr>nextPromise := Suc (nextPromise s),
              settled := settled s @ [(nextPromise s, Rejected PoolClosing)]\<rparr>)
       \<and> parse s jsonString =
           (nextPromise s,
            s\<lparr>nextPromise := Suc (nextPromise s),
              settled := settled s @ [(nextPromise s, Rejected PoolClosing)]\<rparr>)
       \<and> stringify s dataObject =
           (nextPromise s,
            s\<lparr>nextPromise := Suc (nextPromise s),
              settled := settled s @ [(nextPromise s, Rejected PoolClosing)]\<rparr>)
       \<and> taskQueue (snd (runTask s t)) = taskQueue s
       \<and> posted (snd (runTask s t)) = posted s
       \<and> workerTaskMap (snd (runTask s t)) = workerTaskMap s
       \<and> idleWorkers (snd (runTask s t)) = idleWorkers s
       \<and> workers (snd (runTask s t)) = workers s"
proof -
  from assms have "isClosing s"
    using closing_foldl[OF close_closing, of s0 es] by auto
  then show ?thesis
    by (simp add: parse_def stringify_def runTask_closing)
qed

theorem submit_while_closing_rejected_witness:
  "isClosing closing1
   \<and> runTask closing1 parse_task =
       (1, closing1\<lparr>nextPromise := 2,
             settled := [(0, Rejected PoolClosing), (1, Rejected PoolClosing)]\<rparr>)
   \<and> stringify closing1 Func =
       (1, closing1\<lparr>nextPromise := 2,
             settled := [(0, Rejected PoolClosing), (1, Rejected PoolClosing)]\<rparr>)
   \<and> taskQueue (snd (runTask closing1 parse_task)) = []
   \<and> posted (snd (runTask closing1 parse_task)) = [(0, hang_task)]"
  using submit_while_closing_rejected[of closing1 closing1 "[]" parse_task "''{}''" Func]
  by (simp add: closing1_eq)

text \<open>
  C8. When a busy worker answers with status \<open>error\<close>, the handler cancels the timer
  of the assignment, rejects the task's promise with the worker's message, deletes the
  assignment, appends the worker to the idle list and runs \<open>dispatch\<close>. The worker is
  neither terminated nor removed, and no worker is created.
\<close>

theorem compute_failure_keeps_worker:
  assumes "map_of (workerTaskMap s) worker = Some h"
  shows "onMessage s worker (Error e) =
           dispatch
             ((settle (clearTimeoutOf s h) (promise h) (Rejected (ComputeFailure e)))
                \<lparr>workerTaskMap := AList.delete worker (workerTaskMap s),
                 idleWorkers := idleWorkers s @ [worker]\<rparr>)
       \<and> settled (snd (onMessage s worker (Error e))) =
           settled s @ [(promise h, Rejected (ComputeFailure e))]
       \<and> timers (clearTimeoutOf s h) =
           (case timeoutId h of None \<Rightarrow> timers s | Some tid \<Rightarrow> AList.delete tid (timers s))
       \<and> workers (snd (onMessage s worker (Error e))) = workers s
       \<and> nextWorker (snd (onMessage s worker (Error e))) = nextWorker s
       \<and> terminated (snd (onMessage s worker (Error e))) = terminated s
       \<and> erroredWorkers (snd (onMessage s worker (Error e))) = erroredWorkers s
       \<and> timedOutWorkers (snd (onMessage s worker (Error e))) = timedOutWorkers s
       \<and> (taskQueue s = [] \<or> isClosing s \<longrightarrow>
            idleWorkers (snd (onMessage s worker (Error e))) = idleWorkers s @ [worker])"
  using onMessage_Some[OF assms, of "Error e"]
  by (auto simp: dispatch_frame release_fields release_def dispatch_noop prim
      split: option.splits)

theorem compute_failure_keeps_worker_witness:
  "map_of (workerTaskMap busy1) 0 = Some \<lparr>promise = 0, timeoutId = Some 0\<rparr>
   \<and> settled (snd (onMessage busy1 0 (Error ''bad json''))) =
       [(0, Rejected (ComputeFailure ''bad json''))]
   \<and> workers (snd (onMessage busy1 0 (Error ''bad json''))) = [0]
   \<and> idleWorkers (snd (onMessage busy1 0 (Error ''bad json''))) = [0]
   \<and> nextWorker (snd (onMessage busy1 0 (Error ''bad json''))) = 1
   \<and> timers (clearTimeoutOf busy1 \<lparr>promise = 0, timeoutId = Some 0\<rparr>) = []"
  using compute_failure_keeps_worker[of busy1 0 "\<lparr>promise = 0, timeoutId = Some 0\<rparr>" "''bad json''"]
  by (simp add: busy1_eq dispatch_def prim)

text \<open>
  C9. A \<open>message\<close> event from a worker that has no entry in \<open>workerTaskMap\<close> changes
  nothing: the handler returns, without an exception, the state it was given, so no
  result handle is settled, the worker is not added to the idle list, no timer is
  touched and \<open>dispatch\<close> is not run.
\<close>

theorem stale_message_changes_nothing:
  assumes "map_of (workerTaskMap s) worker = None"
  shows "onMessage s worker message = (None, s) \<and> fire s (Message worker message) = s"
  using assms by (simp add: onMessage_def)

theorem stale_message_changes_nothing_witness:
  "map_of (workerTaskMap timedout1) 0 = None
   \<and> onMessage timedout1 0 (Ok ''{}'') = (None, timedout1)
   \<and> fire timedout1 (Message 0 (Ok ''{}'')) = timedout1"
  using stale_message_changes_nothing[of timedout1 0 "Ok ''{}''"]
  by (simp add: timedout1_eq)

text \<open>
  C10. Once the pool is closing, every later event leaves it closing, creates no
  worker and does not lengthen the list of workers, whatever the events are;
  \<open>spawnWorker\<close> returns at once. A second call of \<open>close\<close> on a reachable pool
  that is already closing changes nothing: there is nothing left to reject, and the
  workers still registered, on which \<open>terminate()\<close> is called again, were all
  terminated before.
\<close>

theorem closing_is_permanent:
  assumes "isClosing s"
  shows "isClosing (foldl fire s es)
       \<and> nextWorker (foldl fire s es) = nextWorker s
       \<and> length (workers (fire (foldl fire s es) e)) \<le> length (workers (foldl fire s es))
       \<and> length (workers (foldl fire s es)) \<le> length (workers s)
       \<and> spawnWorker s = (None, s)
       \<and> (reachable s \<longrightarrow> close s = s)"
proof -
  from closing_foldl[OF assms, of es]
  have c: "isClosing (foldl fire s es)" and n: "nextWorker (foldl fire s es) = nextWorker s"
    and l: "length (workers (foldl fire s es)) \<le> length (workers s)"
    by simp_all
  from closing_fire(3)[OF c]
  have "length (workers (fire (foldl fire s es) e)) \<le> length (workers (foldl fire s es))" .
  moreover have "reachable s \<longrightarrow> close s = s"
    using assms by (auto intro: close_again reachable_pool_inv)
  ultimately show ?thesis
    using c n l assms by (simp add: spawnWorker_closing)
qed

theorem closing_is_permanent_witness:
  "isClosing closing1
   \<and> isClosing (foldl fire closing1 [Submit parse_task, Exit 0 1])
   \<and> nextWorker (foldl fire closing1 [Submit parse_task, Exit 0 1]) = 1
   \<and> length (workers (foldl fire closing1 [Submit parse_task, Exit 0 1])) \<le> 1
   \<and> spawnWorker closing1 = (None, closing1)
   \<and> close closing1 = closing1"
  using closing_is_permanent[of closing1 "[Submit parse_task, Exit 0 1]" Close]
    reachable_closing1
  by (simp add: closing1_eq)

end
